theory Spec2Isabelle
  imports Main "HOL-Library.Char_ord" "HOL-Library.List_Lexorder" "HOL-Library.AList"
    "HOL-Library.Sublist"
begin

section \<open>The resolution engine of load-env (load-env.go)\<close>

text \<open>
  The development embeds the per-file resolution (\<^verbatim>\<open>parseEnvFile\<close>), its helpers
  (\<^verbatim>\<open>expandVarsInString\<close>, \<^verbatim>\<open>applyCommandSubstitution\<close>,
  \<^verbatim>\<open>executeCommandSubstitution\<close>, \<^verbatim>\<open>mergeMaps\<close>, \<^verbatim>\<open>mapToSlice\<close>) and the
  chain loop, the placeholder restoration and the choice of the launch environment of
  \<^verbatim>\<open>main\<close>.

  Conventions of the embedding.
  \<^item> A Go string is a \<open>string\<close>; one \<open>char\<close> stands for one code point, so the text of
    the model is the text of code points below 256. All delimiters the program looks at are
    ASCII, and the regular expressions of Go step through code points. Where the program
    counts bytes (the buffer of the scanner), a code point below 128 counts as one byte and
    any other as two, as UTF-8 encodes them (\<open>byteLen\<close>).
  \<^item> A Go \<^verbatim>\<open>map[string]string\<close> is an association list; the order of the list is the
    order in which a \<^verbatim>\<open>range\<close> loop visits the entries, which Go leaves unspecified.
    A list that represents a Go map has pairwise different keys.
  \<^item> What the program writes to the diagnostic stream is a list of \<open>warning\<close> values, in the
    order of writing.
  \<^item> The command executor, \<^verbatim>\<open>strconv.Unquote\<close> and the content of the files are
    parameters: the executor maps program name, arguments and environment to the result of
    \<^verbatim>\<open>cmd.Output()\<close>. What a sub-process writes to its own standard error passes
    through to the diagnostic stream and is no part of the model.
  \<^item> A file that can be opened is read to its end unless a line is too long for the
    scanner; other failures of the operating system while reading are not modelled.
  \<^item> The two lines that the gopass pass writes for a failed command are one warning.
\<close>

subsection \<open>Strings\<close>

definition literalDollarPlaceholder :: string where
  "literalDollarPlaceholder = ''__LOAD_ENV_LITERAL_DOLLAR__''"

definition defaultShell :: string where
  "defaultShell = ''bash''"

text \<open>\<^verbatim>\<open>unicode.IsSpace\<close> on the code points below 256: tab, line feed, vertical tab, form
  feed, carriage return, space, NEL (U+0085) and no-break space (U+00A0).\<close>

definition isSpace :: "char \<Rightarrow> bool" where
  "isSpace c \<longleftrightarrow> c \<in> set [CHR 0x09, CHR 0x0A, CHR 0x0B, CHR 0x0C, CHR 0x0D, CHR 0x20, CHR 0x85, CHR 0xA0]"

definition trimSpace :: "string \<Rightarrow> string" where
  "trimSpace s = rev (dropWhile isSpace (rev (dropWhile isSpace s)))"

definition hasPrefix :: "string \<Rightarrow> string \<Rightarrow> bool" where
  "hasPrefix s p \<longleftrightarrow> prefix p s"

definition hasSuffix :: "string \<Rightarrow> string \<Rightarrow> bool" where
  "hasSuffix s p \<longleftrightarrow> suffix p s"

definition trimSuffix :: "string \<Rightarrow> string \<Rightarrow> string" where
  "trimSuffix s p = (if hasSuffix s p then take (length s - length p) s else s)"

text \<open>\<^verbatim>\<open>strings.SplitN(line, "=", 2)\<close>: at most two parts, cut at the first \<open>=\<close>.\<close>

definition splitN2 :: "string \<Rightarrow> string list" where
  "splitN2 s =
     (if CHR ''='' \<in> set s
      then [takeWhile (\<lambda>c. c \<noteq> CHR ''='') s, tl (dropWhile (\<lambda>c. c \<noteq> CHR ''='') s)]
      else [s])"

text \<open>\<^verbatim>\<open>strings.ReplaceAll(s, old, new)\<close> for a non-empty \<open>old\<close>: the occurrences are
  taken from left to right and do not overlap.\<close>

fun replaceAll :: "string \<Rightarrow> string \<Rightarrow> string \<Rightarrow> string" where
  "replaceAll [] old new = []"
| "replaceAll (c # cs) old new =
     (if old \<noteq> [] \<and> prefix old (c # cs)
      then new @ replaceAll (drop (length old - 1) cs) old new
      else c # replaceAll cs old new)"

subsection \<open>Maps\<close>

type_synonym envmap = "(string \<times> string) list"

text \<open>\<open>m[k]\<close> with the \<open>ok\<close> flag is \<open>map_of m k\<close>; the plain index expression yields the
  empty string for a missing key.\<close>

definition index :: "envmap \<Rightarrow> string \<Rightarrow> string" where
  "index m k = (case map_of m k of Some v \<Rightarrow> v | None \<Rightarrow> [])"

definition mergeMaps :: "envmap list \<Rightarrow> envmap" where
  "mergeMaps maps = fold (\<lambda>m merged. fold (\<lambda>(k, v) acc. AList.update k v acc) m merged) maps []"

definition mapToSlice :: "envmap \<Rightarrow> string list" where
  "mapToSlice m = map (\<lambda>k. k @ ''='' @ index m k) (sort (map fst m))"


subsection \<open>Regular expressions\<close>

text \<open>
  The four expressions of the program are written in the fragment below. Go's \<^verbatim>\<open>regexp\<close>
  package returns the leftmost match and, among the matches that start there, the one a
  backtracking search finds first; \<open>rmatch\<close> is that search. Its last argument is the
  continuation: what still has to match after the expression at hand. Submatches are kept
  in a list whose entry \<open>i\<close> is the text of group \<open>i\<close> (the empty string while the group
  has not taken part), as \<^verbatim>\<open>FindStringSubmatch\<close> reports them.
\<close>

datatype regex =
    Lit char
  | Class "char \<Rightarrow> bool"
  | Eps
  | Cat regex regex
  | Alt regex regex
  | Star regex
  | Group nat regex

fun rmatch :: "regex \<Rightarrow> string \<Rightarrow> string list \<Rightarrow>
    (string \<Rightarrow> string list \<Rightarrow> (string \<times> string list) option) \<Rightarrow> (string \<times> string list) option" where
  "rmatch (Lit c) s caps k = (case s of [] \<Rightarrow> None | x # xs \<Rightarrow> if x = c then k xs caps else None)"
| "rmatch (Class P) s caps k = (case s of [] \<Rightarrow> None | x # xs \<Rightarrow> if P x then k xs caps else None)"
| "rmatch Eps s caps k = k s caps"
| "rmatch (Cat a b) s caps k = rmatch a s caps (\<lambda>s' caps'. rmatch b s' caps' k)"
| "rmatch (Alt a b) s caps k =
     (case rmatch a s caps k of Some r \<Rightarrow> Some r | None \<Rightarrow> rmatch b s caps k)"
| "rmatch (Star a) s caps k =
     (case rmatch a s caps
             (\<lambda>s' caps'. if length s' < length s then rmatch (Star a) s' caps' k else None) of
        Some r \<Rightarrow> Some r
      | None \<Rightarrow> k s caps)"
| "rmatch (Group i a) s caps k =
     rmatch a s caps (\<lambda>s' caps'. k s' (caps'[i := take (length s - length s') s]))"

fun numSubexp :: "regex \<Rightarrow> nat" where
  "numSubexp (Cat a b) = max (numSubexp a) (numSubexp b)"
| "numSubexp (Alt a b) = max (numSubexp a) (numSubexp b)"
| "numSubexp (Star a) = numSubexp a"
| "numSubexp (Group i a) = max i (numSubexp a)"
| "numSubexp _ = 0"

text \<open>A match that starts at the first character of \<open>s\<close>: the submatches (entry 0 is the
  whole match) and the text after the match.\<close>

definition matchAt :: "regex \<Rightarrow> string \<Rightarrow> (string list \<times> string) option" where
  "matchAt re s =
     (case rmatch re s (replicate (Suc (numSubexp re)) []) (\<lambda>s' caps. Some (s', caps)) of
        None \<Rightarrow> None
      | Some (rest, caps) \<Rightarrow> Some (caps[0 := take (length s - length rest) s], rest))"

text \<open>\<^verbatim>\<open>FindStringSubmatch\<close>: the submatches of the leftmost match, the empty list
  (\<^verbatim>\<open>nil\<close>) when there is none.\<close>

fun findStringSubmatch :: "regex \<Rightarrow> string \<Rightarrow> string list" where
  "findStringSubmatch re [] = (case matchAt re [] of Some (ms, rest) \<Rightarrow> ms | None \<Rightarrow> [])"
| "findStringSubmatch re (c # cs) =
     (case matchAt re (c # cs) of Some (ms, rest) \<Rightarrow> ms | None \<Rightarrow> findStringSubmatch re cs)"

text \<open>\<^verbatim>\<open>ReplaceAllStringFunc\<close>, with the state the replacement function changes (the
  diagnostic stream) passed along: the text is scanned from the left, every match is handed
  to \<open>repl\<close> and the scan goes on behind the match; the replacement is not scanned again.
  None of the four expressions matches the empty string (each starts with a dollar sign), so
  Go's special treatment of empty matches is left out: the scan just moves on.\<close>

function replaceAllStringFunc ::
    "regex \<Rightarrow> string \<Rightarrow> (string \<Rightarrow> 's \<Rightarrow> string \<times> 's) \<Rightarrow> 's \<Rightarrow> string \<times> 's" where
  "replaceAllStringFunc re s repl st =
     (case matchAt re s of
        Some (ms, rest) \<Rightarrow>
          if length rest < length s
          then (case repl (ms ! 0) st of (r, st') \<Rightarrow>
                 (case replaceAllStringFunc re rest repl st' of (out, st'') \<Rightarrow> (r @ out, st'')))
          else (case s of [] \<Rightarrow> ([], st)
                | c # cs \<Rightarrow> (case replaceAllStringFunc re cs repl st of (out, st') \<Rightarrow> (c # out, st')))
      | None \<Rightarrow>
          (case s of [] \<Rightarrow> ([], st)
           | c # cs \<Rightarrow> (case replaceAllStringFunc re cs repl st of (out, st') \<Rightarrow> (c # out, st'))))"
  by pat_completeness auto
termination
  by (relation "measure (\<lambda>(re, s, repl, st). length s)") auto

declare replaceAllStringFunc.simps [simp del]

definition str :: "string \<Rightarrow> regex" where
  "str s = foldr (\<lambda>c r. Cat (Lit c) r) s Eps"

definition cat :: "regex list \<Rightarrow> regex" where
  "cat rs = foldr Cat rs Eps"

definition opt :: "regex \<Rightarrow> regex" where
  "opt r = Alt r Eps"

definition plus :: "regex \<Rightarrow> regex" where
  "plus r = Cat r (Star r)"

definition rep12 :: "regex \<Rightarrow> regex" where
  "rep12 r = Cat r (opt r)"

text \<open>\<^verbatim>\<open>\s\<close> is \<^verbatim>\<open>[\t\n\f\r ]\<close> in Go; \<open>isWord\<close> is \<^verbatim>\<open>[a-zA-Z0-9_]\<close> and
  \<open>isNameStart\<close> is \<^verbatim>\<open>[a-zA-Z_]\<close>, with \<open>inRange\<close> for a range of a class. A negated
  class also matches a line feed.\<close>

definition reSpace :: "char \<Rightarrow> bool" where
  "reSpace c \<longleftrightarrow> c \<in> set [CHR 0x09, CHR 0x0A, CHR 0x0C, CHR 0x0D, CHR 0x20]"

definition inRange :: "char \<Rightarrow> char \<Rightarrow> char \<Rightarrow> bool" where
  "inRange lo hi c \<longleftrightarrow> lo \<le> c \<and> c \<le> hi"

definition isNameStart :: "char \<Rightarrow> bool" where
  "isNameStart c \<longleftrightarrow> inRange CHR ''a'' CHR ''z'' c \<or> inRange CHR ''A'' CHR ''Z'' c \<or> c = CHR ''_''"

definition isWord :: "char \<Rightarrow> bool" where
  "isWord c \<longleftrightarrow>
     inRange CHR ''a'' CHR ''z'' c \<or> inRange CHR ''A'' CHR ''Z'' c \<or> inRange CHR ''0'' CHR ''9'' c \<or>
     c = CHR ''_''"

text \<open>\<^verbatim>\<open>\$\(gopass(?: show)?(?:(?:\s+[-]{1,2}[a-zA-Z0-9_]+(?:[^)\s]+)?)*)\s*([^)]+)\)\<close>, where
  \<open>flagRegex\<close> is the repeated part \<^verbatim>\<open>\s+[-]{1,2}[a-zA-Z0-9_]+(?:[^)\s]+)?\<close>.\<close>

abbreviation flagRegex :: regex where
  "flagRegex \<equiv> cat [plus (Class reSpace), rep12 (Lit CHR ''-''), plus (Class isWord),
                   opt (plus (Class (\<lambda>c. c \<noteq> CHR '')'' \<and> \<not> reSpace c)))]"

definition gopassRegex :: regex where
  "gopassRegex =
     cat [str ''$(gopass'', opt (str '' show''), Star flagRegex, Star (Class reSpace),
          Group 1 (plus (Class (\<lambda>c. c \<noteq> CHR '')''))), Lit CHR '')'']"

text \<open>\<^verbatim>\<open>\$\[([^\]]+)\]\<close>\<close>

definition alternateCommandRegex :: regex where
  "alternateCommandRegex =
     cat [Lit CHR ''$'', Lit CHR ''['', Group 1 (plus (Class (\<lambda>c. c \<noteq> CHR '']''))), Lit CHR '']'']"

text \<open>\<^verbatim>\<open>\$\(([^)]+)\)\<close>\<close>

definition genericCommandRegex :: regex where
  "genericCommandRegex =
     cat [Lit CHR ''$'', Lit CHR ''('', Group 1 (plus (Class (\<lambda>c. c \<noteq> CHR '')''))), Lit CHR '')'']"

text \<open>\<^verbatim>\<open>\$(?:([a-zA-Z_][a-zA-Z0-9_]*)|{([a-zA-Z_][a-zA-Z0-9_]*)})\<close>\<close>

definition variableExpansionRegex :: regex where
  "variableExpansionRegex =
     Cat (Lit CHR ''$'')
       (Alt (Group 1 (Cat (Class isNameStart) (Star (Class isWord))))
            (cat [Lit CHR ''{'', Group 2 (Cat (Class isNameStart) (Star (Class isWord))),
                  Lit CHR ''}'']))"


subsection \<open>Commands and diagnostics\<close>

text \<open>The result of \<^verbatim>\<open>cmd.Output()\<close>: the captured standard output, or an error that is
  either an \<^verbatim>\<open>*exec.ExitError\<close> (exit code, captured standard error) or any other
  failure to run the command.\<close>

datatype exec_error = ExitError int string | OtherError string

type_synonym commandExecutor = "string \<Rightarrow> string list \<Rightarrow> string list \<Rightarrow> exec_error + string"

text \<open>The two errors \<^verbatim>\<open>executeCommandSubstitution\<close> builds with \<^verbatim>\<open>fmt.Errorf\<close>, by
  their arguments: command, key, line number, file, exit code, standard error; and key, line
  number, file, cause.\<close>

datatype subst_error =
    CommandFailed string string nat string int string
  | CommandNotExecuted string nat string string

text \<open>The messages written to the diagnostic stream, by their arguments.\<close>

datatype warning =
    MalformedLine nat string string
  | UnquoteFailed string nat string
  | NoCommandExtracted string nat string string
  | SubstitutionFailed subst_error
  | EmptyCommandOutput string string nat string
  | GopassFailed subst_error
  | EmptyGopassOutput string string nat string

abbreviation dquote :: char where "dquote \<equiv> CHR 0x22"
abbreviation squote :: char where "squote \<equiv> CHR 0x27"
abbreviation backslash :: char where "backslash \<equiv> CHR 0x5C"
abbreviation newline :: char where "newline \<equiv> CHR 0x0A"

definition executeCommandSubstitution ::
    "string \<Rightarrow> string \<Rightarrow> string \<Rightarrow> nat \<Rightarrow> commandExecutor \<Rightarrow> envmap \<Rightarrow> envmap \<Rightarrow> subst_error + string" where
  "executeCommandSubstitution key commandString envFilePath lineNum cmdExecutor inheritedEnvMap currentEnvMap =
     (let subCmdEnvMap = mergeMaps [inheritedEnvMap, currentEnvMap];
          subCmdEnvSlice = mapToSlice subCmdEnvMap
      in case cmdExecutor defaultShell [''-c'', commandString] subCmdEnvSlice of
           Inl (ExitError code err) \<Rightarrow>
             Inl (CommandFailed commandString key lineNum envFilePath code err)
         | Inl (OtherError err) \<Rightarrow> Inl (CommandNotExecuted key lineNum envFilePath err)
         | Inr output \<Rightarrow> Inr (trimSuffix output [newline]))"

subsection \<open>Variable expansion\<close>

text \<open>The function literal handed to \<^verbatim>\<open>ReplaceAllStringFunc\<close> in
  \<^verbatim>\<open>expandVarsInString\<close>.\<close>

definition expandVar :: "envmap \<Rightarrow> string \<Rightarrow> string" where
  "expandVar combinedEnvForLookup matchStr =
     (let matches = findStringSubmatch variableExpansionRegex matchStr;
          varName = (if length matches > 1 \<and> matches ! 1 \<noteq> [] then matches ! 1
                     else if length matches > 2 \<and> matches ! 2 \<noteq> [] then matches ! 2
                     else [])
      in case map_of combinedEnvForLookup varName of Some val \<Rightarrow> val | None \<Rightarrow> [])"

definition expandVarsInString :: "string \<Rightarrow> envmap \<Rightarrow> string" where
  "expandVarsInString text combinedEnvForLookup =
     fst (replaceAllStringFunc variableExpansionRegex text
            (\<lambda>matchStr u. (expandVar combinedEnvForLookup matchStr, u)) ())"

subsection \<open>Command substitution\<close>

text \<open>The function literal of \<^verbatim>\<open>applyCommandSubstitution\<close>.\<close>

definition commandRepl ::
    "regex \<Rightarrow> string \<Rightarrow> string \<Rightarrow> nat \<Rightarrow> commandExecutor \<Rightarrow> envmap \<Rightarrow> envmap \<Rightarrow> envmap \<Rightarrow>
     string \<Rightarrow> warning list \<Rightarrow> string \<times> warning list" where
  "commandRepl r key envFilePath lineNum cmdExecutor inheritedEnvMap initialEnvMap combinedEnvForLookup
       matchStr log =
     (let matches = findStringSubmatch r matchStr
      in if length matches < 2 \<or> matches ! 1 = []
         then (matchStr, log @ [NoCommandExtracted key lineNum envFilePath matchStr])
         else
           let commandToExecute = matches ! 1
           in case executeCommandSubstitution key commandToExecute envFilePath lineNum cmdExecutor
                     inheritedEnvMap initialEnvMap of
                Inl err \<Rightarrow> ([], log @ [SubstitutionFailed err])
              | Inr output \<Rightarrow>
                  let output' = expandVarsInString output combinedEnvForLookup
                  in (output',
                      if output' = []
                      then log @ [EmptyCommandOutput commandToExecute key lineNum envFilePath]
                      else log))"

definition applyCommandSubstitution ::
    "string \<Rightarrow> regex \<Rightarrow> string \<Rightarrow> string \<Rightarrow> nat \<Rightarrow> commandExecutor \<Rightarrow> envmap \<Rightarrow> envmap \<Rightarrow> envmap \<Rightarrow>
     warning list \<Rightarrow> string \<times> warning list" where
  "applyCommandSubstitution value r key envFilePath lineNum cmdExecutor inheritedEnvMap initialEnvMap
       combinedEnvForLookup log =
     replaceAllStringFunc r value
       (commandRepl r key envFilePath lineNum cmdExecutor inheritedEnvMap initialEnvMap
          combinedEnvForLookup) log"

text \<open>The function literal of the gopass pass of \<^verbatim>\<open>parseEnvFile\<close>.\<close>

definition gopassRepl ::
    "string \<Rightarrow> string \<Rightarrow> nat \<Rightarrow> commandExecutor \<Rightarrow> envmap \<Rightarrow> envmap \<Rightarrow> envmap \<Rightarrow>
     string \<Rightarrow> warning list \<Rightarrow> string \<times> warning list" where
  "gopassRepl key envFilePath lineNum cmdExecutor inheritedEnvMap initialEnvMap combinedEnvForLookup
       matchStr log =
     (let matches = findStringSubmatch gopassRegex matchStr
      in if length matches < 2 then (matchStr, log)
         else
           let gopassPath = matches ! 1;
               commandToExecute = ''gopass show --password '' @ gopassPath
           in case executeCommandSubstitution key commandToExecute envFilePath lineNum cmdExecutor
                     inheritedEnvMap initialEnvMap of
                Inl err \<Rightarrow> ([], log @ [GopassFailed err])
              | Inr output \<Rightarrow>
                  let output' = expandVarsInString output combinedEnvForLookup
                  in (output',
                      if output' = []
                      then log @ [EmptyGopassOutput key gopassPath lineNum envFilePath]
                      else log))"

subsection \<open>The per-file resolution\<close>

text \<open>\<^verbatim>\<open>bufio.Scanner\<close> with the default split function \<^verbatim>\<open>ScanLines\<close>: the lines
  without their line feed and without one trailing carriage return; a last line that is
  empty is not delivered. The scanner's buffer holds 65536 bytes: a line of that many
  bytes or more before its line feed (a carriage return counts) does not fit and stops the
  scan with the error \<^verbatim>\<open>bufio.ErrTooLong\<close> (the flag), after the lines before it.
  \<open>byteLen\<close> is \<^verbatim>\<open>len\<close> of the UTF-8 encoded text.\<close>

definition maxScanTokenSize :: nat where
  "maxScanTokenSize = 64 * 1024"

definition runeLen :: "char \<Rightarrow> nat" where
  "runeLen c = (if of_char c < (128 :: nat) then 1 else 2)"

definition byteLen :: "string \<Rightarrow> nat" where
  "byteLen s = sum_list (map runeLen s)"

definition dropCR :: "string \<Rightarrow> string" where
  "dropCR l = (if l \<noteq> [] \<and> last l = CHR 0x0D then butlast l else l)"

function scanLines :: "string \<Rightarrow> string list \<times> bool" where
  "scanLines data =
     (if data = [] then ([], False)
      else
        let l = takeWhile (\<lambda>c. c \<noteq> newline) data;
            r = dropWhile (\<lambda>c. c \<noteq> newline) data
        in if byteLen l \<ge> maxScanTokenSize then ([], True)
           else (case scanLines (drop 1 r) of (ls, e) \<Rightarrow> (dropCR l # ls, e)))"
  by pat_completeness auto
termination
proof (relation "measure length")
  fix data :: string and l r
  assume "data \<noteq> []" and r: "r = dropWhile (\<lambda>c. c \<noteq> newline) data"
  have "length r \<le> length data"
    unfolding r by (rule length_dropWhile_le)
  with \<open>data \<noteq> []\<close> have "length (drop 1 r) < length data"
    by (cases r) auto
  then show "(drop 1 r, data) \<in> measure length" by simp
qed simp

declare scanLines.simps [simp del]

datatype parse_error = CouldNotOpen string | ErrorReading string

text \<open>The quote handling of \<^verbatim>\<open>parseEnvFile\<close> (lines 256 to 272).\<close>

definition handleQuotes ::
    "(string \<Rightarrow> string option) \<Rightarrow> string \<Rightarrow> nat \<Rightarrow> string \<Rightarrow> warning list \<Rightarrow> string \<times> warning list" where
  "handleQuotes unquote envFilePath lineNum value log =
     (if hasPrefix value [dquote] \<and> hasSuffix value [dquote] \<and> length value \<ge> 2
      then (case unquote value of
              Some unquotedValue \<Rightarrow> (unquotedValue, log)
            | None \<Rightarrow> (drop 1 (take (length value - 1) value),
                       log @ [UnquoteFailed value lineNum envFilePath]))
      else if hasPrefix value [squote] \<and> hasSuffix value [squote] \<and> length value \<ge> 2
      then (drop 1 (take (length value - 1) value), log)
      else (value, log))"

text \<open>The four substitution passes of \<^verbatim>\<open>parseEnvFile\<close> (lines 279 to 321).\<close>

definition processValue ::
    "string \<Rightarrow> string \<Rightarrow> nat \<Rightarrow> commandExecutor \<Rightarrow> envmap \<Rightarrow> envmap \<Rightarrow> string \<Rightarrow> warning list \<Rightarrow>
     string \<times> warning list" where
  "processValue key envFilePath lineNum cmdExecutor inheritedEnvMap initialEnvMap value log =
     (let combinedEnvForLookup = mergeMaps [inheritedEnvMap, initialEnvMap];
          value1 = expandVarsInString value combinedEnvForLookup
      in case replaceAllStringFunc gopassRegex value1
                (gopassRepl key envFilePath lineNum cmdExecutor inheritedEnvMap initialEnvMap
                   combinedEnvForLookup) log of
           (value2, log2) \<Rightarrow>
             (case applyCommandSubstitution value2 alternateCommandRegex key envFilePath lineNum
                     cmdExecutor inheritedEnvMap initialEnvMap combinedEnvForLookup log2 of
                (value3, log3) \<Rightarrow>
                  applyCommandSubstitution value3 genericCommandRegex key envFilePath lineNum
                    cmdExecutor inheritedEnvMap initialEnvMap combinedEnvForLookup log3))"

text \<open>The body of the scanning loop of \<^verbatim>\<open>parseEnvFile\<close> for one line; \<open>lineNum\<close> is
  the number of the line, already counted.\<close>

definition parseLine ::
    "(string \<Rightarrow> string option) \<Rightarrow> commandExecutor \<Rightarrow> string \<Rightarrow> envmap \<Rightarrow> string \<Rightarrow> nat \<Rightarrow>
     envmap \<Rightarrow> warning list \<Rightarrow> envmap \<times> warning list" where
  "parseLine unquote cmdExecutor envFilePath inheritedEnvMap text lineNum initialEnvMap log =
     (let line = trimSpace text
      in if length line = 0 \<or> hasPrefix line ''#'' then (initialEnvMap, log)
         else
           let parts = splitN2 line
           in if length parts \<noteq> 2
              then (initialEnvMap, log @ [MalformedLine lineNum envFilePath line])
              else
                let key = trimSpace (parts ! 0);
                    value = trimSpace (parts ! 1)
                in case handleQuotes unquote envFilePath lineNum value log of
                     (value', log') \<Rightarrow>
                       (case processValue key envFilePath lineNum cmdExecutor inheritedEnvMap
                               initialEnvMap
                               (replaceAll value' [backslash, CHR ''$''] literalDollarPlaceholder)
                               log' of
                          (value'', log'') \<Rightarrow> (AList.update key value'' initialEnvMap, log'')))"

fun parseLines ::
    "(string \<Rightarrow> string option) \<Rightarrow> commandExecutor \<Rightarrow> string \<Rightarrow> envmap \<Rightarrow> string list \<Rightarrow> nat \<Rightarrow>
     envmap \<Rightarrow> warning list \<Rightarrow> envmap \<times> warning list" where
  "parseLines unquote cmdExecutor envFilePath inheritedEnvMap [] lineNum initialEnvMap log =
     (initialEnvMap, log)"
| "parseLines unquote cmdExecutor envFilePath inheritedEnvMap (text # rest) lineNum initialEnvMap log =
     (case parseLine unquote cmdExecutor envFilePath inheritedEnvMap text (Suc lineNum)
             initialEnvMap log of
        (initialEnvMap', log') \<Rightarrow>
          parseLines unquote cmdExecutor envFilePath inheritedEnvMap rest (Suc lineNum)
            initialEnvMap' log')"

text \<open>\<open>files\<close> maps a path to the content of the file, \<open>None\<close> when the file cannot be
  opened. The result is the pair Go returns (the error, or the map) together with the
  diagnostics written.\<close>

definition parseEnvFile ::
    "(string \<Rightarrow> string option) \<Rightarrow> (string \<Rightarrow> string option) \<Rightarrow> string \<Rightarrow> commandExecutor \<Rightarrow> envmap \<Rightarrow>
     (parse_error + envmap) \<times> warning list" where
  "parseEnvFile unquote files envFilePath cmdExecutor inheritedEnvMap =
     (case files envFilePath of
        None \<Rightarrow> (Inl (CouldNotOpen envFilePath), [])
      | Some content \<Rightarrow>
          (case scanLines content of
             (lines, failed) \<Rightarrow>
               (case parseLines unquote cmdExecutor envFilePath inheritedEnvMap lines 0 [] [] of
                  (initialEnvMap, log) \<Rightarrow>
                    if failed then (Inl (ErrorReading envFilePath), log)
                    else (Inr initialEnvMap, log))))"


subsection \<open>The chain of files, the restoration of the dollar signs, the launch environment\<close>

text \<open>\<^verbatim>\<open>main\<close>, lines 489 to 496: the map of the process environment, from the
  \<^verbatim>\<open>KEY=VALUE\<close> strings of \<^verbatim>\<open>os.Environ()\<close>.\<close>

definition environMap :: "string list \<Rightarrow> envmap" where
  "environMap environ =
     fold (\<lambda>envVar osEnvMap.
             let parts = splitN2 envVar
             in if length parts = 2 then AList.update (parts ! 0) (parts ! 1) osEnvMap
                else osEnvMap)
       environ []"

text \<open>\<^verbatim>\<open>main\<close>, lines 498 to 516: the loop over the files of the chain, with the joint map
  and the inherited map as they stand before the next file. An error of a file ends the run
  (\<^verbatim>\<open>os.Exit(1)\<close>).\<close>

fun resolveChain ::
    "(string \<Rightarrow> string option) \<Rightarrow> (string \<Rightarrow> string option) \<Rightarrow> commandExecutor \<Rightarrow> envmap \<Rightarrow>
     string list \<Rightarrow> envmap \<Rightarrow> envmap \<Rightarrow> warning list \<Rightarrow>
     (parse_error + envmap \<times> envmap) \<times> warning list" where
  "resolveChain unquote files cmdExecutor osEnvMap [] jointResolvedEnvMap inheritedEnvMap log =
     (Inr (jointResolvedEnvMap, inheritedEnvMap), log)"
| "resolveChain unquote files cmdExecutor osEnvMap (envFilePath # rest) jointResolvedEnvMap
       inheritedEnvMap log =
     (case parseEnvFile unquote files envFilePath cmdExecutor inheritedEnvMap of
        (Inl err, w) \<Rightarrow> (Inl err, log @ w)
      | (Inr resolvedEnvMap, w) \<Rightarrow>
          let jointResolvedEnvMap' = mergeMaps [jointResolvedEnvMap, resolvedEnvMap];
              inheritedEnvMap' = mergeMaps [osEnvMap, jointResolvedEnvMap']
          in resolveChain unquote files cmdExecutor osEnvMap rest jointResolvedEnvMap'
               inheritedEnvMap' (log @ w))"

text \<open>\<^verbatim>\<open>main\<close>, lines 518 to 521: the loop assigns to the entry it visits.\<close>

definition restoreDollars :: "envmap \<Rightarrow> envmap" where
  "restoreDollars jointResolvedEnvMap =
     fold (\<lambda>(k, v) m. AList.update k (replaceAll v literalDollarPlaceholder ''$'') m)
       jointResolvedEnvMap jointResolvedEnvMap"

text \<open>The joint resolved map of a run, from the environment strings of the process and the
  paths of the chain.\<close>

definition resolve ::
    "(string \<Rightarrow> string option) \<Rightarrow> (string \<Rightarrow> string option) \<Rightarrow> commandExecutor \<Rightarrow> string list \<Rightarrow>
     string list \<Rightarrow> (parse_error + envmap) \<times> warning list" where
  "resolve unquote files cmdExecutor environ envFilePaths =
     (let osEnvMap = environMap environ
      in case resolveChain unquote files cmdExecutor osEnvMap envFilePaths [] osEnvMap [] of
           (Inl err, w) \<Rightarrow> (Inl err, w)
         | (Inr (jointResolvedEnvMap, inheritedEnvMap), w) \<Rightarrow>
             (Inr (restoreDollars jointResolvedEnvMap), w))"

text \<open>\<^verbatim>\<open>main\<close>, lines 592 to 602: the environment for \<^verbatim>\<open>syscall.Exec\<close>.\<close>

definition launchEnv :: "bool \<Rightarrow> envmap \<Rightarrow> envmap \<Rightarrow> string list" where
  "launchEnv sandBoxed osEnvMap jointResolvedEnvMap =
     (if sandBoxed then mapToSlice jointResolvedEnvMap
      else let fullSetEnvMap = mergeMaps [osEnvMap, jointResolvedEnvMap]
           in mapToSlice fullSetEnvMap)"

subsection \<open>The substitution engine in the words of the specification\<close>

text \<open>What a command form puts in the place of its match: the output of the command, run
  in the environment resolved so far, without one trailing line feed and with its variable
  references expanded against the lookup scope of the line; nothing when the command fails.\<close>

definition commandOutput :: "commandExecutor \<Rightarrow> envmap \<Rightarrow> envmap \<Rightarrow> string \<Rightarrow> string" where
  "commandOutput run inherited inFile command =
     (case run defaultShell [''-c'', command] (mapToSlice (mergeMaps [inherited, inFile])) of
        Inl e \<Rightarrow> []
      | Inr out \<Rightarrow> expandVarsInString (trimSuffix out [newline]) (mergeMaps [inherited, inFile]))"

definition secretLookup :: "commandExecutor \<Rightarrow> envmap \<Rightarrow> envmap \<Rightarrow> string \<Rightarrow> string" where
  "secretLookup run inherited inFile m =
     (let groups = findStringSubmatch gopassRegex m
      in if length groups < 2 then m
         else commandOutput run inherited inFile (''gopass show --password '' @ groups ! 1))"

definition commandForm :: "regex \<Rightarrow> commandExecutor \<Rightarrow> envmap \<Rightarrow> envmap \<Rightarrow> string \<Rightarrow> string" where
  "commandForm re run inherited inFile m =
     (let groups = findStringSubmatch re m
      in if length groups < 2 \<or> groups ! 1 = [] then m
         else commandOutput run inherited inFile (groups ! 1))"

definition substitutionPass :: "regex \<Rightarrow> (string \<Rightarrow> string) \<Rightarrow> string \<Rightarrow> string" where
  "substitutionPass re replacement v = fst (replaceAllStringFunc re v (\<lambda>m u. (replacement m, u)) ())"

definition substitutionEngine :: "commandExecutor \<Rightarrow> envmap \<Rightarrow> envmap \<Rightarrow> string \<Rightarrow> string" where
  "substitutionEngine run inherited inFile v =
     substitutionPass genericCommandRegex (commandForm genericCommandRegex run inherited inFile)
       (substitutionPass alternateCommandRegex (commandForm alternateCommandRegex run inherited inFile)
          (substitutionPass gopassRegex (secretLookup run inherited inFile)
             (expandVarsInString v (mergeMaps [inherited, inFile]))))"

text \<open>The line parser and the engine together, without the diagnostics: what one line makes
  of the map resolved so far.\<close>

definition quoteHandled :: "(string \<Rightarrow> string option) \<Rightarrow> string \<Rightarrow> string" where
  "quoteHandled unquote v =
     (if hasPrefix v [dquote] \<and> hasSuffix v [dquote] \<and> length v \<ge> 2
      then (case unquote v of Some u \<Rightarrow> u | None \<Rightarrow> drop 1 (take (length v - 1) v))
      else if hasPrefix v [squote] \<and> hasSuffix v [squote] \<and> length v \<ge> 2
      then drop 1 (take (length v - 1) v)
      else v)"

definition resolveLine ::
    "(string \<Rightarrow> string option) \<Rightarrow> commandExecutor \<Rightarrow> envmap \<Rightarrow> string \<Rightarrow> envmap \<Rightarrow> envmap" where
  "resolveLine unquote run inherited text inFile =
     (let line = trimSpace text
      in if line = [] \<or> hasPrefix line ''#'' then inFile
         else
           let parts = splitN2 line
           in if length parts \<noteq> 2 then inFile
              else AList.update (trimSpace (parts ! 0))
                     (substitutionEngine run inherited inFile
                        (replaceAll (quoteHandled unquote (trimSpace (parts ! 1)))
                           [backslash, CHR ''$''] literalDollarPlaceholder))
                     inFile)"

subsection \<open>Inputs for the examples\<close>

text \<open>A table-driven executor for the examples: a table from the command line to the
  standard output and the exit code; a command that is not in the table fails with exit
  code 1. It returns the output of the table as it stands. (The test doubles of
  \<^verbatim>\<open>load_env_test.go\<close> are tables of this kind, too, but they hand the output to the
  \<^verbatim>\<open>printf\<close> of a shell script.)\<close>

fun join :: "string list \<Rightarrow> string \<Rightarrow> string" where
  "join [] sep = []"
| "join [a] sep = a"
| "join (a # b # rest) sep = a @ sep @ join (b # rest) sep"

definition tableExecutor :: "(string \<times> string \<times> int) list \<Rightarrow> commandExecutor" where
  "tableExecutor mockedResponses name arg env =
     (let fullCmd = name @ '' '' @ join arg '' ''
      in case map_of mockedResponses fullCmd of
           None \<Rightarrow> Inl (ExitError 1 [])
         | Some (stdout, exitCode) \<Rightarrow> if exitCode = 0 then Inr stdout else Inl (ExitError exitCode []))"

text \<open>An executor that answers every command with its environment, one entry per line, as
  \<^verbatim>\<open>env\<close> does.\<close>

definition envExecutor :: commandExecutor where
  "envExecutor name arg env = Inr (concat (map (\<lambda>e. e @ [newline]) env))"



text \<open>A legal name of a variable reference: \<^verbatim>\<open>[a-zA-Z_][a-zA-Z0-9_]*\<close>.\<close>

definition isName :: "string \<Rightarrow> bool" where
  "isName n \<longleftrightarrow> n \<noteq> [] \<and> isNameStart (hd n) \<and> list_all isWord (tl n)"

text \<open>\<^verbatim>\<open>strings.Contains\<close>.\<close>

definition contains :: "string \<Rightarrow> string \<Rightarrow> bool" where
  "contains s substr \<longleftrightarrow> sublist substr s"

text \<open>The four regular expressions of the program.\<close>

definition theRegexes :: "regex set" where
  "theRegexes = {gopassRegex, alternateCommandRegex, genericCommandRegex, variableExpansionRegex}"

section \<open>Lemmas\<close>

subsection \<open>Maps\<close>

lemma map_of_fold_update:
  "map_of (fold (\<lambda>(k, v) acc. AList.update k v acc) xs acc) = map_of acc ++ map_of (rev xs)"
proof (induction xs arbitrary: acc)
  case Nil
  then show ?case by simp
next
  case (Cons x xs)
  obtain k v where x: "x = (k, v)" by (cases x)
  show ?case
    by (simp add: x Cons.IH update_conv' map_add_upd_left fun_eq_iff map_add_def split: option.splits)
qed

lemma keys_fold_update:
  "fst ` set (fold (\<lambda>(k, v) acc. AList.update k v acc) xs acc) = fst ` set acc \<union> fst ` set xs"
proof (induction xs arbitrary: acc)
  case Nil
  then show ?case by simp
next
  case (Cons x xs)
  obtain k v where x: "x = (k, v)" by (cases x)
  show ?case by (simp add: x Cons.IH dom_update)
qed

lemma distinct_fold_update:
  "distinct (map fst acc) \<Longrightarrow> distinct (map fst (fold (\<lambda>(k, v) acc. AList.update k v acc) xs acc))"
proof (induction xs arbitrary: acc)
  case Nil
  then show ?case by simp
next
  case (Cons x xs)
  obtain k v where x: "x = (k, v)" by (cases x)
  show ?case using Cons.prems by (simp add: x Cons.IH distinct_update)
qed

lemma map_of_rev_distinct: "distinct (map fst xs) \<Longrightarrow> map_of (rev xs) = map_of xs"
proof (induction xs)
  case Nil
  then show ?case by simp
next
  case (Cons x xs)
  obtain k v where x: "x = (k, v)" by (cases x)
  from Cons.prems have "k \<notin> dom (map_of xs)"
    by (simp add: x dom_map_of_conv_image_fst)
  then have k: "map_of xs k = None" by blast
  show ?case using Cons k
    by (auto simp: x fun_eq_iff map_add_def split: option.splits)
qed

lemma map_of_mergeMaps2: "map_of (mergeMaps [a, b]) = map_of (rev a) ++ map_of (rev b)"
  by (simp add: mergeMaps_def map_of_fold_update)

lemma distinct_mergeMaps2: "distinct (map fst (mergeMaps [a, b]))"
  by (simp add: mergeMaps_def distinct_fold_update)

lemma keys_mergeMaps2: "fst ` set (mergeMaps [a, b]) = fst ` set a \<union> fst ` set b"
  by (simp add: mergeMaps_def keys_fold_update)

lemma lookup_mergeMaps2:
  "distinct (map fst a) \<Longrightarrow> distinct (map fst b) \<Longrightarrow>
   map_of (mergeMaps [a, b]) k = (case map_of b k of Some v \<Rightarrow> Some v | None \<Rightarrow> map_of a k)"
  by (simp add: map_of_mergeMaps2 map_of_rev_distinct map_add_def)

lemma sort_distinct_conv: "distinct xs \<Longrightarrow> sort xs = sorted_list_of_set (set xs)"
  by (simp add: sorted_list_of_set_sort_remdups distinct_remdups_id)

lemma keys_conv_dom: "set (map fst m) = dom (map_of m)"
  by (simp add: dom_map_of_conv_image_fst)

lemma mapToSlice_cong:
  assumes "distinct (map fst a)" "distinct (map fst b)" "map_of a = map_of b"
  shows "mapToSlice a = mapToSlice b"
proof -
  have "sort (map fst a) = sort (map fst b)"
    using assms by (simp only: sort_distinct_conv keys_conv_dom)
  then show ?thesis
    by (simp add: mapToSlice_def index_def assms(3))
qed

lemma set_mapToSlice:
  "distinct (map fst m) \<Longrightarrow> set (mapToSlice m) = (\<lambda>(k, v). k @ ''='' @ v) ` set m"
  by (force simp: mapToSlice_def index_def image_iff)

subsection \<open>The regular expression matcher\<close>

lemma rmatch_length:
  assumes "\<And>s' c' r c. k s' c' = Some (r, c) \<Longrightarrow> length r \<le> length s'"
  shows "rmatch re s caps k = Some (r, c) \<Longrightarrow> length r \<le> length s"
  using assms
proof (induction re s caps k arbitrary: r c rule: rmatch.induct)
  case (1 ch s caps k)
  then show ?case by (fastforce split: list.splits if_splits)
next
  case (2 P s caps k)
  then show ?case by (fastforce split: list.splits if_splits)
next
  case (3 s caps k)
  then show ?case by simp
next
  case (4 a b s caps k)
  from "4.prems"(1) have m: "rmatch a s caps (\<lambda>s' caps'. rmatch b s' caps' k) = Some (r, c)"
    by simp
  have K: "\<And>s' c' r c. rmatch b s' c' k = Some (r, c) \<Longrightarrow> length r \<le> length s'"
    using "4.IH"(1) "4.prems"(2) by blast
  show ?case using "4.IH"(2)[OF m K] .
next
  case (5 a b s caps k)
  show ?case
  proof (cases "rmatch a s caps k")
    case None
    with "5.prems"(1) have "rmatch b s caps k = Some (r, c)" by simp
    from "5.IH"(2)[OF None this "5.prems"(2)] show ?thesis .
  next
    case (Some x)
    with "5.prems"(1) have "rmatch a s caps k = Some (r, c)" by simp
    from "5.IH"(1)[OF this "5.prems"(2)] show ?thesis .
  qed
next
  case (6 a s caps k)
  let ?K = "\<lambda>s' caps'. if length s' < length s then rmatch (Star a) s' caps' k else None"
  have K: "\<And>s' c' r c. ?K s' c' = Some (r, c) \<Longrightarrow> length r \<le> length s'"
  proof -
    fix s' c' r c assume a: "?K s' c' = Some (r, c)"
    then have l: "length s' < length s" and m: "rmatch (Star a) s' c' k = Some (r, c)"
      by (auto split: if_splits)
    from "6.IH"(1)[OF l m "6.prems"(2)] show "length r \<le> length s'" .
  qed
  show ?case
  proof (cases "rmatch a s caps ?K")
    case None
    with "6.prems"(1) have "k s caps = Some (r, c)" by simp
    then show ?thesis by (rule "6.prems"(2))
  next
    case (Some x)
    with "6.prems"(1) have "rmatch a s caps ?K = Some (r, c)" by simp
    from "6.IH"(2)[OF this K] show ?thesis .
  qed
next
  case (7 i a s caps k)
  from "7.prems"(1)
  have m: "rmatch a s caps (\<lambda>s' caps'. k s' (caps'[i := take (length s - length s') s])) = Some (r, c)"
    by simp
  have K: "\<And>s' c' r c. k s' (c'[i := take (length s - length s') s]) = Some (r, c) \<Longrightarrow> length r \<le> length s'"
    using "7.prems"(2) by blast
  show ?case using "7.IH"[OF m K] .
qed

lemma rmatch_final_length:
  "rmatch re s caps (\<lambda>s' caps'. Some (s', caps')) = Some (r, c) \<Longrightarrow> length r \<le> length s"
  by (rule rmatch_length[where k = "\<lambda>s' caps'. Some (s', caps')"]) auto

lemmas regex_defs = gopassRegex_def alternateCommandRegex_def genericCommandRegex_def
  variableExpansionRegex_def str_def cat_def opt_def plus_def rep12_def

lemma rmatch_no_dollar:
  assumes "re \<in> theRegexes" "s = [] \<or> hd s \<noteq> CHR ''$''"
  shows "rmatch re s caps k = None"
  using assms by (cases s) (auto simp: theRegexes_def regex_defs)

lemma matchAt_no_dollar:
  "re \<in> theRegexes \<Longrightarrow> s = [] \<or> hd s \<noteq> CHR ''$'' \<Longrightarrow> matchAt re s = None"
  by (simp add: matchAt_def rmatch_no_dollar)

lemma regex_shape:
  assumes "re \<in> theRegexes"
  shows "(\<exists>R. re = Cat (Lit CHR ''$'') R) \<or> (\<exists>R R'. re = Cat (Cat (Lit CHR ''$'') R) R')"
  using assms by (auto simp: theRegexes_def regex_defs)

lemma matchAt_progress:
  assumes "re \<in> theRegexes" "matchAt re s = Some (ms, rest)"
  shows "length rest < length s"
proof (cases s)
  case Nil
  with assms show ?thesis by (simp add: matchAt_no_dollar)
next
  case (Cons x xs)
  from assms(2) obtain caps where
    m: "rmatch re s (replicate (Suc (numSubexp re)) []) (\<lambda>s' caps. Some (s', caps)) = Some (rest, caps)"
    by (auto simp: matchAt_def split: option.splits)
  from regex_shape[OF assms(1)] obtain re' k' where
    "rmatch re' xs (replicate (Suc (numSubexp re)) []) k' = Some (rest, caps)"
    and k': "\<And>s' c' r c. k' s' c' = Some (r, c) \<Longrightarrow> length r \<le> length s'"
  proof (elim disjE exE)
    fix R assume "re = Cat (Lit CHR ''$'') R"
    with m Cons that[of R "\<lambda>s' caps. Some (s', caps)"] show thesis
      by (auto split: if_splits)
  next
    fix R R' assume "re = Cat (Cat (Lit CHR ''$'') R) R'"
    with m Cons that[of R "\<lambda>s' caps'. rmatch R' s' caps' (\<lambda>s' caps. Some (s', caps))"]
    show thesis
      by (auto split: if_splits dest: rmatch_final_length)
  qed
  then have "length rest \<le> length xs" by (rule rmatch_length[rotated])
  then show ?thesis by (simp add: Cons)
qed

subsection \<open>Replacement and variable expansion\<close>

lemma RA_Nil: "re \<in> theRegexes \<Longrightarrow> replaceAllStringFunc re [] repl st = ([], st)"
  by (simp add: replaceAllStringFunc.simps matchAt_no_dollar)

lemma RA_other:
  "re \<in> theRegexes \<Longrightarrow> c \<noteq> CHR ''$'' \<Longrightarrow>
   replaceAllStringFunc re (c # cs) repl st =
     (case replaceAllStringFunc re cs repl st of (out, st') \<Rightarrow> (c # out, st'))"
  by (subst replaceAllStringFunc.simps) (simp add: matchAt_no_dollar)

lemma RA_no_match:
  "matchAt re (c # cs) = None \<Longrightarrow>
   replaceAllStringFunc re (c # cs) repl st =
     (case replaceAllStringFunc re cs repl st of (out, st') \<Rightarrow> (c # out, st'))"
  by (subst replaceAllStringFunc.simps) simp

lemma RA_match_gen:
  "matchAt re s = Some (ms, rest) \<Longrightarrow> length rest < length s \<Longrightarrow>
   replaceAllStringFunc re s repl st =
     (case repl (ms ! 0) st of (r, st') \<Rightarrow>
        (case replaceAllStringFunc re rest repl st' of (out, st'') \<Rightarrow> (r @ out, st'')))"
  by (subst replaceAllStringFunc.simps) simp

lemma RA_stuck:
  "matchAt re s = Some (ms, rest) \<Longrightarrow> \<not> length rest < length s \<Longrightarrow>
   replaceAllStringFunc re s repl st =
     (case s of [] \<Rightarrow> ([], st)
      | c # cs \<Rightarrow> (case replaceAllStringFunc re cs repl st of (out, st') \<Rightarrow> (c # out, st')))"
  by (subst replaceAllStringFunc.simps) simp

lemma RA_match:
  "re \<in> theRegexes \<Longrightarrow> matchAt re s = Some (ms, rest) \<Longrightarrow>
   replaceAllStringFunc re s repl st =
     (case repl (ms ! 0) st of (r, st') \<Rightarrow>
        (case replaceAllStringFunc re rest repl st' of (out, st'') \<Rightarrow> (r @ out, st'')))"
  by (rule RA_match_gen) (auto dest: matchAt_progress)

lemma RA_no_dollar:
  "re \<in> theRegexes \<Longrightarrow> CHR ''$'' \<notin> set s \<Longrightarrow> replaceAllStringFunc re s repl st = (s, st)"
  by (induction s) (auto simp: RA_Nil RA_other)


lemma RA_fst:
  assumes "\<And>m st. fst (repl m st) = g m"
  shows "fst (replaceAllStringFunc re s repl st) = fst (replaceAllStringFunc re s (\<lambda>m u. (g m, u)) ())"
proof (induction "length s" arbitrary: s st rule: less_induct)
  case less
  have tl: "fst (replaceAllStringFunc re cs repl st') = fst (replaceAllStringFunc re cs (\<lambda>m u. (g m, u)) ())"
    if "length cs < length s" for cs st'
    using less[OF that] .
  show ?case
  proof (cases "matchAt re s")
    case None
    show ?thesis
    proof (cases s)
      case Nil
      with None show ?thesis by (simp add: replaceAllStringFunc.simps)
    next
      case (Cons c cs)
      have "length cs < length s" by (simp add: Cons)
      from tl[OF this, of st] None show ?thesis
        unfolding Cons by (auto simp: RA_no_match split: prod.splits)
    qed
  next
    case (Some p)
    obtain ms rest where p: "p = (ms, rest)" by (cases p)
    note m = Some[unfolded p]
    show ?thesis
    proof (cases "length rest < length s")
      case True
      obtain r st' where r: "repl (ms ! 0) st = (r, st')" by (cases "repl (ms ! 0) st")
      with assms[of "ms ! 0" st] have g: "g (ms ! 0) = r" by simp
      from tl[OF True, of st'] show ?thesis
        by (auto simp: RA_match_gen[OF m True] r g split: prod.splits)
    next
      case False
      show ?thesis
      proof (cases s)
        case Nil
        with m False show ?thesis by (simp add: RA_stuck)
      next
        case (Cons c cs)
        have "length cs < length s" by (simp add: Cons)
        from tl[OF this, of st] m False show ?thesis
          unfolding Cons by (auto simp: RA_stuck split: prod.splits)
      qed
    qed
  qed
qed

lemma star_class_det:
  assumes "\<forall>x t c. P x \<longrightarrow> k (x # t) c = None"
  shows "rmatch (Star (Class P)) s caps k = k (dropWhile P s) caps"
proof (induction s)
  case Nil
  show ?case by simp
next
  case (Cons x t)
  show ?case
  proof (cases "P x")
    case True
    with Cons assms show ?thesis by (simp split: option.splits)
  next
    case False
    then show ?thesis by simp
  qed
qed

lemma star_class_greedy:
  assumes "k (dropWhile P s) caps = Some r"
  shows "rmatch (Star (Class P)) s caps k = Some r"
  using assms
proof (induction s)
  case Nil
  then show ?case by simp
next
  case (Cons x t)
  then show ?case by (cases "P x") simp_all
qed

lemma isWord_not: "\<not> isWord CHR ''}''" "\<not> isWord CHR ''$''" "\<not> isNameStart CHR ''{''"
  by (simp_all add: isWord_def isNameStart_def inRange_def)

lemma isWord_neq: "isWord x \<Longrightarrow> (x = CHR ''}'') = False" "isWord x \<Longrightarrow> (x = CHR ''$'') = False"
  by (auto simp: isWord_not)

lemma isName_split: "isName n \<Longrightarrow> \<exists>c cs. n = c # cs \<and> isNameStart c \<and> (\<forall>x\<in>set cs. isWord x)"
  by (cases n) (auto simp: isName_def list_all_iff)

lemma matchAt_var_braces:
  assumes "isName n"
  shows "matchAt variableExpansionRegex (''${'' @ n @ ''}'' @ post) = Some ([''${'' @ n @ ''}'', [], n], post)"
proof -
  from isName_split[OF assms] obtain c cs where n: "n = c # cs" and c: "isNameStart c"
    and cs: "\<forall>x\<in>set cs. isWord x" by blast
  have dw: "dropWhile isWord (cs @ CHR ''}'' # post) = CHR ''}'' # post"
    using cs by (simp add: isWord_not)
  show ?thesis
    unfolding matchAt_def variableExpansionRegex_def cat_def
    by (simp add: n c isWord_not isWord_neq star_class_det dw eval_nat_numeral del: rmatch.simps(6))
qed

lemma matchAt_var_plain:
  assumes "isName n" "post = [] \<or> \<not> isWord (hd post)"
  shows "matchAt variableExpansionRegex (''$'' @ n @ post) = Some ([''$'' @ n, n, []], post)"
proof -
  from isName_split[OF assms(1)] obtain c cs where n: "n = c # cs" and c: "isNameStart c"
    and cs: "\<forall>x\<in>set cs. isWord x" by blast
  have dw: "dropWhile isWord (cs @ post) = post"
    using cs assms(2) by (cases post) simp_all
  show ?thesis
    unfolding matchAt_def variableExpansionRegex_def cat_def
    by (simp add: n c star_class_greedy dw eval_nat_numeral del: rmatch.simps(6))
qed

lemma findStringSubmatch_matchAt:
  "matchAt re s = Some (ms, rest) \<Longrightarrow> findStringSubmatch re s = ms"
  by (cases s) simp_all

lemma expandVar_braces:
  "isName n \<Longrightarrow> expandVar env (''${'' @ n @ ''}'') = (case map_of env n of Some v \<Rightarrow> v | None \<Rightarrow> [])"
  using matchAt_var_braces[of n "[]"]
  by (simp add: expandVar_def findStringSubmatch_matchAt isName_def)

lemma expandVar_plain:
  "isName n \<Longrightarrow> expandVar env (''$'' @ n) = (case map_of env n of Some v \<Rightarrow> v | None \<Rightarrow> [])"
  using matchAt_var_plain[of n "[]"]
  by (simp add: expandVar_def findStringSubmatch_matchAt isName_def)

lemma varRe_in: "variableExpansionRegex \<in> theRegexes" "gopassRegex \<in> theRegexes"
  "alternateCommandRegex \<in> theRegexes" "genericCommandRegex \<in> theRegexes"
  by (simp_all add: theRegexes_def)

lemma expandVars_braces:
  assumes "isName n"
  shows "expandVarsInString (''${'' @ n @ ''}'' @ post) env =
         (case map_of env n of Some v \<Rightarrow> v | None \<Rightarrow> []) @ expandVarsInString post env"
  using expandVar_braces[OF assms, of env]
  by (simp add: expandVarsInString_def
        RA_match[OF varRe_in(1) matchAt_var_braces[OF assms, of post, simplified]]
      split: prod.splits)

lemma expandVars_plain:
  assumes "isName n" "post = [] \<or> \<not> isWord (hd post)"
  shows "expandVarsInString (''$'' @ n @ post) env =
         (case map_of env n of Some v \<Rightarrow> v | None \<Rightarrow> []) @ expandVarsInString post env"
  using expandVar_plain[OF assms(1), of env]
  by (simp add: expandVarsInString_def
        RA_match[OF varRe_in(1) matchAt_var_plain[OF assms, simplified]]
      split: prod.splits)

lemma expandVars_other:
  "c \<noteq> CHR ''$'' \<Longrightarrow> expandVarsInString (c # t) env = c # expandVarsInString t env"
  by (simp add: expandVarsInString_def RA_other varRe_in split: prod.splits)

lemma expandVars_Nil: "expandVarsInString [] env = []"
  by (simp add: expandVarsInString_def RA_Nil varRe_in)

lemma expandVars_no_dollar: "CHR ''$'' \<notin> set t \<Longrightarrow> expandVarsInString t env = t"
  by (simp add: expandVarsInString_def RA_no_dollar varRe_in)

subsection \<open>The loops over lines and files\<close>

lemma distinct_parseLine:
  "distinct (map fst m) \<Longrightarrow> distinct (map fst (fst (parseLine U X p inh l n m log)))"
  by (auto simp: parseLine_def Let_def distinct_update split: prod.splits)

lemma distinct_parseLines:
  "distinct (map fst m) \<Longrightarrow> distinct (map fst (fst (parseLines U X p inh ls n m log)))"
proof (induction ls arbitrary: n m log)
  case Nil
  then show ?case by simp
next
  case (Cons l ls)
  from distinct_parseLine[OF Cons.prems, of U X p inh l "Suc n" log] Cons.IH
  show ?case by (auto split: prod.splits)
qed

lemma distinct_parseEnvFile:
  "parseEnvFile U F p X inh = (Inr r, w) \<Longrightarrow> distinct (map fst r)"
proof -
  assume a: "parseEnvFile U F p X inh = (Inr r, w)"
  then obtain ls where "parseLines U X p inh ls 0 [] [] = (r, w)"
    by (auto simp: parseEnvFile_def split: option.splits prod.splits if_splits)
  with distinct_parseLines[of "[]" U X p inh ls 0 "[]"] show ?thesis by simp
qed

lemma distinct_environMap: "distinct (map fst (environMap environ))"
proof -
  have "distinct (map fst acc) \<Longrightarrow> distinct (map fst (fold (\<lambda>envVar osEnvMap.
             let parts = splitN2 envVar
             in if length parts = 2 then AList.update (parts ! 0) (parts ! 1) osEnvMap
                else osEnvMap) environ acc))" for acc
    by (induction environ arbitrary: acc) (auto simp: Let_def distinct_update)
  from this[of "[]"] show ?thesis by (simp add: environMap_def)
qed

lemma resolveChain_snoc:
  "resolveChain U F X os (ps @ [p]) j i log =
     (case resolveChain U F X os ps j i log of
        (Inl e, w) \<Rightarrow> (Inl e, w)
      | (Inr (j', i'), w) \<Rightarrow>
          (case parseEnvFile U F p X i' of
             (Inl e, w') \<Rightarrow> (Inl e, w @ w')
           | (Inr r, w') \<Rightarrow>
               (Inr (mergeMaps [j', r], mergeMaps [os, mergeMaps [j', r]]), w @ w')))"
proof (induction ps arbitrary: j i log)
  case Nil
  show ?case by (simp add: Let_def split: prod.splits sum.splits)
next
  case (Cons q ps)
  show ?case by (simp add: Cons.IH Let_def split: prod.splits sum.splits)
qed

lemma resolveChain_inv:
  assumes "resolveChain U F X os ps j i log = (Inr (j', i'), w)"
    and "distinct (map fst j)" "distinct (map fst os)" "map_of i = map_of os ++ map_of j"
  shows "distinct (map fst j') \<and> map_of i' = map_of os ++ map_of j'"
  using assms
proof (induction ps arbitrary: j i log)
  case Nil
  then show ?case by simp
next
  case (Cons q ps)
  from Cons.prems(1) obtain r w0 where
    r: "parseEnvFile U F q X i = (Inr r, w0)"
    and rest: "resolveChain U F X os ps (mergeMaps [j, r]) (mergeMaps [os, mergeMaps [j, r]]) (log @ w0)
               = (Inr (j', i'), w)"
    by (auto simp: Let_def split: prod.splits sum.splits)
  show ?case
  proof (rule Cons.IH[OF rest])
    show "distinct (map fst (mergeMaps [j, r]))" by (rule distinct_mergeMaps2)
    show "distinct (map fst os)" by fact
    show "map_of (mergeMaps [os, mergeMaps [j, r]]) = map_of os ++ map_of (mergeMaps [j, r])"
      by (simp add: map_of_mergeMaps2[of os] map_of_rev_distinct distinct_mergeMaps2 Cons.prems(3))
  qed
qed

lemma map_of_mergeMaps2_distinct:
  "distinct (map fst a) \<Longrightarrow> distinct (map fst b) \<Longrightarrow> map_of (mergeMaps [a, b]) = map_of a ++ map_of b"
  by (simp add: map_of_mergeMaps2 map_of_rev_distinct)

lemmas eval_defs = parseEnvFile_def scanLines.simps maxScanTokenSize_def byteLen_def runeLen_def dropCR_def parseLine_def
  trimSpace_def isSpace_def hasPrefix_def hasSuffix_def splitN2_def handleQuotes_def processValue_def
  expandVarsInString_def replaceAllStringFunc.simps matchAt_def regex_defs reSpace_def isNameStart_def
  isWord_def inRange_def applyCommandSubstitution_def commandRepl_def gopassRepl_def executeCommandSubstitution_def
  trimSuffix_def expandVar_def literalDollarPlaceholder_def Let_def mergeMaps_def mapToSlice_def
  index_def defaultShell_def resolve_def restoreDollars_def suffix_to_prefix

lemma ex_base_override:
  "fst (resolve U (map_of [(''base.env'', ''X=1''), (''override.env'', ''X=2'')]) X environ
      [''base.env'', ''override.env'']) = Inr [(''X'', ''2'')]"
  by (simp add: eval_defs)

lemma ex_base_override_Y:
  "fst (resolve U (map_of [(''base.env'', ''X=1''), (''override.env'', ''Y=3'')]) X environ
      [''base.env'', ''override.env'']) = Inr [(''X'', ''1''), (''Y'', ''3'')]"
  by (simp add: eval_defs)

subsection \<open>The scanner\<close>

text \<open>A line of 65536 bytes or more stops the scan; a character outside ASCII counts as two
  bytes, so that 32767 of them behind \<^verbatim>\<open>K=\<close> are too long.\<close>

lemma byteLen_bounds: "length s \<le> byteLen s" "byteLen s \<le> 2 * length s"
  by (induction s) (simp_all add: byteLen_def runeLen_def)

lemma byteLen_append: "byteLen (a @ b) = byteLen a + byteLen b"
  by (simp add: byteLen_def)

lemma byteLen_replicate: "byteLen (replicate n c) = n * runeLen c"
  by (induction n) (simp_all add: byteLen_def)

lemma scanLines_too_long:
  assumes "newline \<notin> set l" "maxScanTokenSize \<le> byteLen l"
  shows "scanLines l = ([], True)" "scanLines (l @ newline # rest) = ([], True)"
proof -
  have ne: "l \<noteq> []"
    using assms(2) by (auto simp: byteLen_def maxScanTokenSize_def)
  have t: "takeWhile (\<lambda>c. c \<noteq> newline) l = l" "takeWhile (\<lambda>c. c \<noteq> newline) (l @ newline # rest) = l"
    using assms(1) by (induction l) auto
  show "scanLines l = ([], True)"
    using ne assms(2) by (subst scanLines.simps) (simp add: t Let_def)
  show "scanLines (l @ newline # rest) = ([], True)"
    using assms(2) by (subst scanLines.simps) (simp add: t Let_def)
qed

lemma parseEnvFile_too_long:
  assumes "F p = Some l" "newline \<notin> set l" "maxScanTokenSize \<le> byteLen l"
  shows "parseEnvFile U F p X inh = (Inl (ErrorReading p), [])"
  by (simp add: parseEnvFile_def assms(1) scanLines_too_long(1)[OF assms(2,3)])

lemma ex_two_byte_line:
  "parseEnvFile U (map_of [(''f.env'', ''K='' @ replicate 32767 (CHR 0xE9))]) ''f.env'' X inh =
     (Inl (ErrorReading ''f.env''), [])"
proof (rule parseEnvFile_too_long)
  show "map_of [(''f.env'', ''K='' @ replicate 32767 (CHR 0xE9))] ''f.env'' = Some (''K='' @ replicate 32767 (CHR 0xE9))"
    by simp
  show "newline \<notin> set (''K='' @ replicate 32767 (CHR 0xE9))" by simp
  have "byteLen (''K='' @ replicate 32767 (CHR 0xE9)) = 65536"
    unfolding byteLen_append byteLen_replicate by (simp add: byteLen_def runeLen_def)
  then show "maxScanTokenSize \<le> byteLen (''K='' @ replicate 32767 (CHR 0xE9))"
    by (simp add: maxScanTokenSize_def)
qed

section \<open>The claims\<close>

text \<open>
  C5. Each file's resolved map is folded into the joint map, a later file overriding an
  earlier one on a common key, and the next file inherits the merge of the process
  environment with the joint map so far. With the chain base (\<open>X=1\<close>), override
  (\<open>X=2\<close>) the joint result maps \<open>X\<close> to \<open>2\<close>; when override defines only \<open>Y\<close>, the joint
  result still maps \<open>X\<close> to \<open>1\<close>.
\<close>

theorem C5_chain_merge:
  assumes "resolveChain U F X (environMap environ) ps [] (environMap environ) [] =
             (Inr (joint, inherited), w)"
    and "parseEnvFile U F p X inherited = (Inr resolved, w')"
  shows "resolveChain U F X (environMap environ) (ps @ [p]) [] (environMap environ) [] =
           (Inr (mergeMaps [joint, resolved],
                 mergeMaps [environMap environ, mergeMaps [joint, resolved]]), w @ w')
       \<and> map_of (mergeMaps [joint, resolved]) = map_of joint ++ map_of resolved
       \<and> map_of inherited = map_of (environMap environ) ++ map_of joint
       \<and> map_of (mergeMaps [environMap environ, mergeMaps [joint, resolved]]) =
           map_of (environMap environ) ++ map_of (mergeMaps [joint, resolved])
       \<and> fst (resolve U' (map_of [(''base.env'', ''X=1''), (''override.env'', ''X=2'')]) X' environ'
              [''base.env'', ''override.env'']) = Inr [(''X'', ''2'')]
       \<and> fst (resolve U' (map_of [(''base.env'', ''X=1''), (''override.env'', ''Y=3'')]) X' environ'
              [''base.env'', ''override.env'']) = Inr [(''X'', ''1''), (''Y'', ''3'')]"
proof -
  have inv: "distinct (map fst joint) \<and> map_of inherited = map_of (environMap environ) ++ map_of joint"
    by (rule resolveChain_inv[OF assms(1)]) (simp_all add: distinct_environMap)
  have r: "distinct (map fst resolved)" by (rule distinct_parseEnvFile[OF assms(2)])
  have 1: "resolveChain U F X (environMap environ) (ps @ [p]) [] (environMap environ) [] =
           (Inr (mergeMaps [joint, resolved],
                 mergeMaps [environMap environ, mergeMaps [joint, resolved]]), w @ w')"
    by (simp add: resolveChain_snoc assms)
  have 2: "map_of (mergeMaps [joint, resolved]) = map_of joint ++ map_of resolved"
    using inv r by (simp add: map_of_mergeMaps2_distinct)
  have 3: "map_of (mergeMaps [environMap environ, mergeMaps [joint, resolved]]) =
           map_of (environMap environ) ++ map_of (mergeMaps [joint, resolved])"
    by (simp add: map_of_mergeMaps2_distinct distinct_environMap distinct_mergeMaps2)
  show ?thesis
    using 1 2 3 inv ex_base_override[of U' X' environ'] ex_base_override_Y[of U' X' environ']
    by (simp only: simp_thms)
qed

theorem C5_chain_merge_witness:
  "resolveChain (map_of []) (map_of [(''base.env'', ''X=1''), (''override.env'', ''X=2'')])
     (tableExecutor []) (environMap [''HOME=/root'']) [''base.env''] []
     (environMap [''HOME=/root'']) [] =
     (Inr ([(''X'', ''1'')], [(''HOME'', ''/root''), (''X'', ''1'')]), [])
   \<and> parseEnvFile (map_of []) (map_of [(''base.env'', ''X=1''), (''override.env'', ''X=2'')])
       ''override.env'' (tableExecutor []) [(''HOME'', ''/root''), (''X'', ''1'')] =
     (Inr [(''X'', ''2'')], [])
   \<and> resolveChain (map_of []) (map_of [(''base.env'', ''X=1''), (''override.env'', ''X=2'')])
     (tableExecutor []) (environMap [''HOME=/root'']) ([''base.env''] @ [''override.env'']) []
     (environMap [''HOME=/root'']) [] =
     (Inr ([(''X'', ''2'')], [(''HOME'', ''/root''), (''X'', ''2'')]), [])"
proof -
  have h1: "resolveChain (map_of []) (map_of [(''base.env'', ''X=1''), (''override.env'', ''X=2'')])
     (tableExecutor []) (environMap [''HOME=/root'']) [''base.env''] []
     (environMap [''HOME=/root'']) [] =
     (Inr ([(''X'', ''1'')], [(''HOME'', ''/root''), (''X'', ''1'')]), [])"
    by (simp add: eval_defs environMap_def)
  have h2: "parseEnvFile (map_of []) (map_of [(''base.env'', ''X=1''), (''override.env'', ''X=2'')])
       ''override.env'' (tableExecutor []) [(''HOME'', ''/root''), (''X'', ''1'')] =
     (Inr [(''X'', ''2'')], [])"
    by (simp add: eval_defs)
  from C5_chain_merge[OF h1 h2] h1 h2 show ?thesis
    by (simp add: mergeMaps_def environMap_def splitN2_def)
qed

lemma update_append_notin:
  "k \<notin> fst ` set a \<Longrightarrow> AList.update k v (a @ b) = a @ AList.update k v b"
  by (induction a) auto

lemma fold_update_map_values:
  "distinct (map fst (pre @ xs)) \<Longrightarrow>
   fold (\<lambda>(k, v) m. AList.update k (f v) m) xs (map (\<lambda>(k, v). (k, f v)) pre @ xs) =
   map (\<lambda>(k, v). (k, f v)) (pre @ xs)"
proof (induction xs arbitrary: pre)
  case Nil
  then show ?case by simp
next
  case (Cons x xs)
  obtain k v where x: "x = (k, v)" by (cases x)
  from Cons.prems have k: "k \<notin> fst ` set (map (\<lambda>(k, v). (k, f v)) pre)"
    by (force simp: x)
  from Cons.prems have d: "distinct (map fst ((pre @ [x]) @ xs))" by simp
  from Cons.IH[OF d] show ?case
    by (simp add: x update_append_notin[OF k])
qed

lemma restoreDollars_map:
  "distinct (map fst j) \<Longrightarrow>
   restoreDollars j = map (\<lambda>(k, v). (k, replaceAll v literalDollarPlaceholder ''$'')) j"
  using fold_update_map_values[of "[]" j "\<lambda>v. replaceAll v literalDollarPlaceholder ''$''"]
  by (simp add: restoreDollars_def)

lemma keys_restoreDollars: "distinct (map fst j) \<Longrightarrow> map fst (restoreDollars j) = map fst j"
  by (simp add: restoreDollars_map case_prod_unfold comp_def)

lemma resolve_Inr:
  assumes "fst (resolve U F X environ ps) = Inr joint"
  shows "\<exists>j i w. resolveChain U F X (environMap environ) ps [] (environMap environ) [] = (Inr (j, i), w)
           \<and> distinct (map fst j) \<and> joint = restoreDollars j"
proof -
  from assms obtain j i w where
    c: "resolveChain U F X (environMap environ) ps [] (environMap environ) [] = (Inr (j, i), w)"
    and j: "joint = restoreDollars j"
    by (auto simp: resolve_def Let_def split: prod.splits sum.splits)
  from resolveChain_inv[OF c] have "distinct (map fst j)"
    by (simp add: distinct_environMap)
  with c j show ?thesis by blast
qed

lemma distinct_resolve:
  "fst (resolve U F X environ ps) = Inr joint \<Longrightarrow> distinct (map fst joint)"
  by (auto dest!: resolve_Inr simp: keys_restoreDollars)

lemma launchEnv_entries:
  assumes os: "distinct (map fst os)" and j: "distinct (map fst joint)"
  shows "set (launchEnv True os joint) = (\<lambda>(k, v). k @ ''='' @ v) ` set joint"
    and "length (launchEnv True os joint) = length joint"
    and "set (launchEnv False os joint) =
           (\<lambda>(k, v). k @ ''='' @ v) ` {(k, v). (map_of os ++ map_of joint) k = Some v}"
proof -
  show "set (launchEnv True os joint) = (\<lambda>(k, v). k @ ''='' @ v) ` set joint"
    by (simp add: launchEnv_def set_mapToSlice[OF j])
  show "length (launchEnv True os joint) = length joint"
    by (simp add: launchEnv_def mapToSlice_def)
  have "set (mergeMaps [os, joint]) = {(k, v). map_of (mergeMaps [os, joint]) k = Some v}"
    using distinct_mergeMaps2[of os joint] by auto
  then have "set (mergeMaps [os, joint]) = {(k, v). (map_of os ++ map_of joint) k = Some v}"
    by (simp only: map_of_mergeMaps2_distinct[OF os j])
  then show "set (launchEnv False os joint) =
           (\<lambda>(k, v). k @ ''='' @ v) ` {(k, v). (map_of os ++ map_of joint) k = Some v}"
    by (simp add: launchEnv_def Let_def set_mapToSlice[OF distinct_mergeMaps2])
qed

text \<open>
  C6. In sandboxed mode the environment handed to the launch step has exactly the entries
  of the joint resolved map, one per key; in default mode it has the entries of the merge
  of the process environment with the joint map, so it contains the sandboxed environment
  and every inherited entry whose key no file defines.
\<close>

theorem C6_launch_env:
  assumes "fst (resolve U F X environ ps) = Inr joint"
  shows "set (launchEnv True (environMap environ) joint) = (\<lambda>(k, v). k @ ''='' @ v) ` set joint
       \<and> length (launchEnv True (environMap environ) joint) = length joint
       \<and> set (launchEnv False (environMap environ) joint) =
           (\<lambda>(k, v). k @ ''='' @ v) `
             {(k, v). (map_of (environMap environ) ++ map_of joint) k = Some v}
       \<and> set (launchEnv True (environMap environ) joint)
           \<subseteq> set (launchEnv False (environMap environ) joint)
       \<and> (map_of (environMap environ) k = Some v \<and> k \<notin> fst ` set joint
            \<longrightarrow> k @ ''='' @ v \<in> set (launchEnv False (environMap environ) joint))"
proof -
  note j = distinct_resolve[OF assms]
  note e = launchEnv_entries[OF distinct_environMap j]
  have sub: "set joint \<subseteq> {(k, v). (map_of (environMap environ) ++ map_of joint) k = Some v}"
    using j by auto
  have inh: "(k, v) \<in> {(k, v). (map_of (environMap environ) ++ map_of joint) k = Some v}"
    if "map_of (environMap environ) k = Some v" "k \<notin> fst ` set joint"
    using that by (simp add: map_add_Some_iff map_of_eq_None_iff)
  show ?thesis
    unfolding e using sub inh by (auto simp del: map_of_eq_Some_iff)
qed

theorem C6_launch_env_witness:
  "fst (resolve (map_of []) (map_of [(''a.env'', ''X=2'')]) (tableExecutor [])
         [''HOME=/root'', ''X=1''] [''a.env'']) = Inr [(''X'', ''2'')]
   \<and> launchEnv True (environMap [''HOME=/root'', ''X=1'']) [(''X'', ''2'')] = [''X=2'']
   \<and> launchEnv False (environMap [''HOME=/root'', ''X=1'']) [(''X'', ''2'')] = [''HOME=/root'', ''X=2'']
   \<and> map_of (environMap [''HOME=/root'', ''X=1'']) ''HOME'' = Some ''/root''
   \<and> ''HOME'' \<notin> fst ` set [(''X'', ''2'')]
   \<and> ''HOME'' @ ''='' @ ''/root'' \<in>
         set (launchEnv False (environMap [''HOME=/root'', ''X=1'']) [(''X'', ''2'')])"
proof -
  have h: "fst (resolve (map_of []) (map_of [(''a.env'', ''X=2'')]) (tableExecutor [])
         [''HOME=/root'', ''X=1''] [''a.env'']) = Inr [(''X'', ''2'')]"
    by (simp add: eval_defs)
  have m: "map_of (environMap [''HOME=/root'', ''X=1'']) ''HOME'' = Some ''/root''"
    by (simp add: environMap_def splitN2_def)
  have s: "launchEnv True (environMap [''HOME=/root'', ''X=1'']) [(''X'', ''2'')] = [''X=2'']"
    by (simp add: launchEnv_def mapToSlice_def index_def)
  have d: "launchEnv False (environMap [''HOME=/root'', ''X=1'']) [(''X'', ''2'')] = [''HOME=/root'', ''X=2'']"
    by (simp add: launchEnv_def mapToSlice_def index_def environMap_def splitN2_def mergeMaps_def)
  have n: "''HOME'' \<notin> fst ` set [(''X'', ''2'')]" by simp
  from C6_launch_env[OF h, of "''HOME''" "''/root''"] m n
  have t: "''HOME'' @ ''='' @ ''/root'' \<in>
         set (launchEnv False (environMap [''HOME=/root'', ''X=1'']) [(''X'', ''2'')])"
    by blast
  from h s d m n t show ?thesis by blast
qed

lemma replaceAll_prefix_keep:
  "prefix q (replaceAll s old new) \<Longrightarrow> set q \<inter> set new = {} \<Longrightarrow> new \<noteq> [] \<Longrightarrow> prefix q s"
proof (induction s old new arbitrary: q rule: replaceAll.induct)
  case (1 old new)
  then show ?case by simp
next
  case (2 c cs old new)
  show ?case
  proof (cases q)
    case Nil
    then show ?thesis by simp
  next
    case (Cons x q')
    show ?thesis
    proof (cases "old \<noteq> [] \<and> prefix old (c # cs)")
      case True
      with "2.prems"(1) have "prefix (x # q') (new @ replaceAll (drop (length old - 1) cs) old new)"
        by (simp add: Cons)
      with "2.prems"(3) have "x \<in> set new" by (cases new) auto
      with "2.prems"(2) show ?thesis by (auto simp: Cons)
    next
      case False
      with "2.prems"(1) have x: "x = c" and p: "prefix q' (replaceAll cs old new)"
        by (auto simp: Cons)
      from "2.prems"(2) have "set q' \<inter> set new = {}" by (auto simp: Cons)
      from "2.IH"(2)[OF False p this "2.prems"(3)] x show ?thesis by (simp add: Cons)
    qed
  qed
qed

lemma replaceAll_removes:
  "set old \<inter> set new = {} \<Longrightarrow> new \<noteq> [] \<Longrightarrow> old \<noteq> [] \<Longrightarrow> \<not> sublist old (replaceAll s old new)"
proof (induction s old new rule: replaceAll.induct)
  case (1 old new)
  then show ?case by (cases old) simp_all
next
  case (2 c cs old new)
  note dis = "2.prems"(1) and new = "2.prems"(2) and old = "2.prems"(3)
  show ?case
  proof (cases "old \<noteq> [] \<and> prefix old (c # cs)")
    case True
    let ?r = "replaceAll (drop (length old - 1) cs) old new"
    have ih: "\<not> sublist old ?r" by (rule "2.IH"(1)[OF True dis new old])
    have "\<not> sublist old (new @ ?r)"
    proof
      assume "sublist old (new @ ?r)"
      then consider "sublist old new" | "sublist old ?r"
        | xs1 xs2 where "old = xs1 @ xs2" "suffix xs1 new" "prefix xs2 ?r"
        by (auto simp: sublist_append)
      then show False
      proof cases
        case 1
        then have "set old \<subseteq> set new" by (rule set_mono_sublist)
        with dis old show False by (cases old) auto
      next
        case 2
        with ih show False by simp
      next
        case 3
        show False
        proof (cases xs1)
          case Nil
          with 3 have "prefix old ?r" by simp
          then have "sublist old ?r" by (rule prefix_imp_sublist)
          with ih show False by simp
        next
          case (Cons y ys)
          with 3(2) have "y \<in> set new" by (auto dest: set_mono_suffix)
          moreover from Cons 3(1) have "y \<in> set old" by simp
          ultimately show False using dis by auto
        qed
      qed
    qed
    with True show ?thesis by simp
  next
    case False
    have ih: "\<not> sublist old (replaceAll cs old new)" by (rule "2.IH"(2)[OF False dis new old])
    have "\<not> prefix old (replaceAll (c # cs) old new)"
    proof
      assume "prefix old (replaceAll (c # cs) old new)"
      from replaceAll_prefix_keep[OF this dis new] False old show False by simp
    qed
    moreover from False old have nm: "\<not> prefix old (c # cs)" by simp
    ultimately have "\<not> prefix old (c # replaceAll cs old new)" by simp
    with nm ih show ?thesis by (simp add: sublist_Cons_right)
  qed
qed

lemma placeholder_disjoint:
  "set literalDollarPlaceholder \<inter> set ''$'' = {}"
  "set [backslash, CHR ''$''] \<inter> set literalDollarPlaceholder = {}"
  "literalDollarPlaceholder \<noteq> []"
  by (simp_all add: literalDollarPlaceholder_def)

lemma restore_removes_placeholder:
  "\<not> contains (replaceAll v literalDollarPlaceholder ''$'') literalDollarPlaceholder"
  unfolding contains_def
  by (rule replaceAll_removes) (simp_all add: literalDollarPlaceholder_def)

lemma escape_removes_escaped_dollar:
  "\<not> contains (replaceAll v [backslash, CHR ''$''] literalDollarPlaceholder) [backslash, CHR ''$'']"
  unfolding contains_def
  by (rule replaceAll_removes) (simp_all add: literalDollarPlaceholder_def)


lemma parseLine_key_value:
  assumes "trimSpace text = line" "line \<noteq> []" "\<not> hasPrefix line ''#''" "splitN2 line = [k, v]"
    and "handleQuotes U p n (trimSpace v) log = (v', log')"
  shows "parseLine U X p inh text n m log =
           (case processValue (trimSpace k) p n X inh m
                   (replaceAll v' [backslash, CHR ''$''] literalDollarPlaceholder) log' of
              (v'', log'') \<Rightarrow> (AList.update (trimSpace k) v'' m, log''))"
  using assms by (simp add: parseLine_def Let_def)

lemma resolve_final:
  assumes "fst (resolve U F X environ ps) = Inr final"
  shows "\<exists>j i w. resolveChain U F X (environMap environ) ps [] (environMap environ) [] = (Inr (j, i), w)
           \<and> final = map (\<lambda>(k, v). (k, replaceAll v literalDollarPlaceholder ''$'')) j"
  using resolve_Inr[OF assms] by (auto simp: restoreDollars_map)

lemma resolve_no_placeholder:
  assumes "fst (resolve U F X environ ps) = Inr final" "(key, val) \<in> set final"
  shows "\<not> contains val literalDollarPlaceholder"
  using resolve_final[OF assms(1)] assms(2) restore_removes_placeholder by auto

lemma ex_escaped_dollar:
  "fst (resolve U (map_of [(''f.env'', ''KEY='' @ [backslash] @ ''$100'')]) X environ [''f.env''])
     = Inr [(''KEY'', ''$100'')]"
  "fst (parseEnvFile U (map_of [(''f.env'', ''KEY='' @ [backslash] @ ''$100'')]) ''f.env'' X inh)
     = Inr [(''KEY'', literalDollarPlaceholder @ ''100'')]"
  "fst (resolve U (map_of [(''f.env'', ''K='' @ [backslash] @ ''$HOME'')]) X environ [''f.env''])
     = Inr [(''K'', ''$HOME'')]"
  by (simp_all add: eval_defs)

text \<open>
  C3. Every occurrence of \<^verbatim>\<open>\$\<close> in the quote-handled value of a line is replaced by the
  placeholder before the substitution passes run (what the passes receive has no
  \<^verbatim>\<open>\$\<close> left); after the chain the values of the joint map have every placeholder
  replaced by a dollar sign, and no final value contains the placeholder. The line
  \<^verbatim>\<open>KEY=\$100\<close> resolves to \<^verbatim>\<open>$100\<close> (and \<^verbatim>\<open>K=\$HOME\<close> to \<^verbatim>\<open>$HOME\<close>) whatever the
  environment and the executor are.
\<close>

theorem C3_escaped_dollar:
  assumes "trimSpace text = line" "line \<noteq> []" "\<not> hasPrefix line ''#''" "splitN2 line = [k, v]"
    and "handleQuotes U p n (trimSpace v) log = (v', log')"
    and "fst (resolve U F X environ ps) = Inr final" "(key, val) \<in> set final"
  shows "parseLine U X p inh text n m log =
           (case processValue (trimSpace k) p n X inh m
                   (replaceAll v' [backslash, CHR ''$''] literalDollarPlaceholder) log' of
              (v'', log'') \<Rightarrow> (AList.update (trimSpace k) v'' m, log''))
       \<and> \<not> contains (replaceAll v' [backslash, CHR ''$''] literalDollarPlaceholder) [backslash, CHR ''$'']
       \<and> (\<exists>j i w. resolveChain U F X (environMap environ) ps [] (environMap environ) [] = (Inr (j, i), w)
              \<and> final = map (\<lambda>(k, v). (k, replaceAll v literalDollarPlaceholder ''$'')) j)
       \<and> \<not> contains val literalDollarPlaceholder
       \<and> fst (resolve U' (map_of [(''f.env'', ''KEY='' @ [backslash] @ ''$100'')]) X' environ' [''f.env''])
           = Inr [(''KEY'', ''$100'')]
       \<and> fst (parseEnvFile U' (map_of [(''f.env'', ''KEY='' @ [backslash] @ ''$100'')]) ''f.env'' X' inh')
           = Inr [(''KEY'', literalDollarPlaceholder @ ''100'')]
       \<and> fst (resolve U' (map_of [(''f.env'', ''K='' @ [backslash] @ ''$HOME'')]) X' environ' [''f.env''])
           = Inr [(''K'', ''$HOME'')]"
  using parseLine_key_value[OF assms(1-5), of X inh m] escape_removes_escaped_dollar[of v']
    resolve_final[OF assms(6)] resolve_no_placeholder[OF assms(6,7)]
    ex_escaped_dollar(1)[of U' X' environ'] ex_escaped_dollar(2)[of U' X' inh']
    ex_escaped_dollar(3)[of U' X' environ']
  by (simp only: simp_thms)

theorem C3_escaped_dollar_witness:
  "trimSpace (''KEY='' @ [backslash] @ ''$100'') = ''KEY='' @ [backslash] @ ''$100''
   \<and> ''KEY='' @ [backslash] @ ''$100'' \<noteq> []
   \<and> \<not> hasPrefix (''KEY='' @ [backslash] @ ''$100'') ''#''
   \<and> splitN2 (''KEY='' @ [backslash] @ ''$100'') = [''KEY'', [backslash] @ ''$100'']
   \<and> handleQuotes (map_of []) ''f.env'' 1 (trimSpace ([backslash] @ ''$100'')) [] = ([backslash] @ ''$100'', [])
   \<and> fst (resolve (map_of []) (map_of [(''f.env'', ''KEY='' @ [backslash] @ ''$100'')])
            (tableExecutor []) [''HOME=/root''] [''f.env'']) = Inr [(''KEY'', ''$100'')]
   \<and> (''KEY'', ''$100'') \<in> set [(''KEY'', ''$100'')]
   \<and> parseLine (map_of []) (tableExecutor []) ''f.env'' [(''HOME'', ''/root'')]
         (''KEY='' @ [backslash] @ ''$100'') 1 [] [] = ([(''KEY'', literalDollarPlaceholder @ ''100'')], [])
   \<and> \<not> contains ''$100'' literalDollarPlaceholder"
proof -
  have h1: "trimSpace (''KEY='' @ [backslash] @ ''$100'') = ''KEY='' @ [backslash] @ ''$100''"
    by (simp add: trimSpace_def isSpace_def)
  have h2: "''KEY='' @ [backslash] @ ''$100'' \<noteq> []" by simp
  have h3: "\<not> hasPrefix (''KEY='' @ [backslash] @ ''$100'') ''#''" by (simp add: hasPrefix_def)
  have h4: "splitN2 (''KEY='' @ [backslash] @ ''$100'') = [''KEY'', [backslash] @ ''$100'']"
    by (simp add: splitN2_def)
  have h5: "handleQuotes (map_of []) ''f.env'' 1 (trimSpace ([backslash] @ ''$100'')) []
              = ([backslash] @ ''$100'', [])"
    by (simp add: handleQuotes_def trimSpace_def isSpace_def hasPrefix_def hasSuffix_def)
  have h6: "fst (resolve (map_of []) (map_of [(''f.env'', ''KEY='' @ [backslash] @ ''$100'')])
            (tableExecutor []) [''HOME=/root''] [''f.env'']) = Inr [(''KEY'', ''$100'')]"
    by (simp add: eval_defs)
  have h7: "(''KEY'', ''$100'') \<in> set [(''KEY'', ''$100'')]" by simp
  have pv: "processValue ''KEY'' ''f.env'' 1 (tableExecutor []) [(''HOME'', ''/root'')] []
              (replaceAll ([backslash] @ ''$100'') [backslash, CHR ''$''] literalDollarPlaceholder) []
            = (literalDollarPlaceholder @ ''100'', [])"
    by (simp add: eval_defs)
  have ts: "trimSpace ''KEY'' = ''KEY''" by (simp add: trimSpace_def isSpace_def)
  note t = C3_escaped_dollar[where inh = "[(''HOME'', ''/root'')]" and m = "[]",
      OF h1 h2 h3 h4 h5 h6 h7]
  have c1: "parseLine (map_of []) (tableExecutor []) ''f.env'' [(''HOME'', ''/root'')]
         (''KEY='' @ [backslash] @ ''$100'') 1 [] [] = ([(''KEY'', literalDollarPlaceholder @ ''100'')], [])"
    unfolding conjunct1[OF t] ts pv by simp
  from t have c2: "\<not> contains ''$100'' literalDollarPlaceholder" by blast
  from h1 h2 h3 h4 h5 h6 h7 c1 c2 show ?thesis by blast
qed

lemma handleQuotes_single:
  "handleQuotes U p n ([squote] @ body @ [squote]) log = (body, log)"
  by (simp add: handleQuotes_def hasPrefix_def hasSuffix_def suffix_to_prefix)

lemma ex_single_quoted:
  "fst (resolve U (map_of [(''f.env'', ''K='' @ [squote] @ ''a'' @ [backslash] @ ''$b'' @ [squote])]) X environ
         [''f.env'']) = Inr [(''K'', ''a$b'')]"
  "fst (parseEnvFile U (map_of [(''f.env'', ''K='' @ [squote] @ ''a'' @ [backslash] @ ''$b'' @ [squote])])
         ''f.env'' X inh) = Inr [(''K'', ''a'' @ literalDollarPlaceholder @ ''b'')]"
  "fst (resolve U (map_of [(''f.env'', ''K='' @ [squote] @ ''a'' @ [backslash] @ ''nb'' @ [squote])]) X environ
         [''f.env'']) = Inr [(''K'', ''a'' @ [backslash] @ ''nb'')]"
  by (simp_all add: eval_defs)

text \<open>
  C7, as amended. The quote handling strips only the outer quotes of a single-quoted value
  and interprets no escape sequence, so a backslash that does not stand before a dollar
  sign is kept (\<^verbatim>\<open>'a\nb'\<close> stays \<^verbatim>\<open>a\nb\<close>). The \<^verbatim>\<open>\$\<close> pass then runs on the stripped
  text as on every value: \<^verbatim>\<open>'a\$b'\<close> is \<^verbatim>\<open>a\<close>, placeholder, \<^verbatim>\<open>b\<close> in the map of the file and
  \<^verbatim>\<open>a$b\<close> in the final output; the backslash is not preserved.
\<close>

theorem C7_single_quoted:
  "handleQuotes U p n ([squote] @ body @ [squote]) log = (body, log)
   \<and> fst (parseEnvFile U (map_of [(''f.env'', ''K='' @ [squote] @ ''a'' @ [backslash] @ ''$b'' @ [squote])])
         ''f.env'' X inh) = Inr [(''K'', ''a'' @ literalDollarPlaceholder @ ''b'')]
   \<and> fst (resolve U (map_of [(''f.env'', ''K='' @ [squote] @ ''a'' @ [backslash] @ ''$b'' @ [squote])]) X environ
         [''f.env'']) = Inr [(''K'', ''a$b'')]
   \<and> fst (resolve U (map_of [(''f.env'', ''K='' @ [squote] @ ''a'' @ [backslash] @ ''nb'' @ [squote])]) X environ
         [''f.env'']) = Inr [(''K'', ''a'' @ [backslash] @ ''nb'')]"
  using handleQuotes_single[of U p n body log] ex_single_quoted(1)[of U X environ]
    ex_single_quoted(2)[of U X inh] ex_single_quoted(3)[of U X environ]
  by (simp only: simp_thms)

theorem C7_single_quoted_witness:
  "handleQuotes (map_of []) ''f.env'' 1 ([squote] @ (''a'' @ [backslash] @ ''$b'') @ [squote]) []
     = (''a'' @ [backslash] @ ''$b'', [])
   \<and> fst (resolve (map_of []) (map_of [(''f.env'', ''K='' @ [squote] @ ''a'' @ [backslash] @ ''$b'' @ [squote])])
         (tableExecutor []) [''HOME=/root''] [''f.env'']) = Inr [(''K'', ''a$b'')]"
  using C7_single_quoted[of "map_of []" "''f.env''" 1 "''a'' @ [backslash] @ ''$b''" "[]"
      "tableExecutor []" "[]" "[''HOME=/root'']"]
  by blast

text \<open>The claim as stated fails: the final value of \<^verbatim>\<open>K='a\$b'\<close> is \<^verbatim>\<open>a$b\<close>, which is not
  \<^verbatim>\<open>a\$b\<close>.\<close>

theorem C7_counterexample:
  "fst (resolve (map_of []) (map_of [(''f.env'', ''K='' @ [squote] @ ''a'' @ [backslash] @ ''$b'' @ [squote])])
         (tableExecutor []) [] [''f.env'']) = Inr [(''K'', ''a$b'')]
   \<and> ''a$b'' \<noteq> ''a'' @ [backslash] @ ''$b''"
  by (simp add: eval_defs environMap_def)

lemma gopassRepl_fst:
  "fst (gopassRepl key p n X inh m (mergeMaps [inh, m]) ms log) = secretLookup X inh m ms"
  by (simp add: gopassRepl_def secretLookup_def commandOutput_def executeCommandSubstitution_def
      Let_def split: sum.splits exec_error.splits)

lemma commandRepl_fst:
  "fst (commandRepl re key p n X inh m (mergeMaps [inh, m]) ms log) = commandForm re X inh m ms"
  by (simp add: commandRepl_def commandForm_def commandOutput_def executeCommandSubstitution_def
      Let_def split: sum.splits exec_error.splits)

lemma gopass_pass_fst:
  "fst (replaceAllStringFunc gopassRegex v (gopassRepl key p n X inh m (mergeMaps [inh, m])) log) =
   substitutionPass gopassRegex (secretLookup X inh m) v"
  unfolding substitutionPass_def by (rule RA_fst) (rule gopassRepl_fst)

lemma command_pass_fst:
  "fst (applyCommandSubstitution v re key p n X inh m (mergeMaps [inh, m]) log) =
   substitutionPass re (commandForm re X inh m) v"
  unfolding substitutionPass_def applyCommandSubstitution_def by (rule RA_fst) (rule commandRepl_fst)

lemma processValue_fst:
  "fst (processValue key p n X inh m v log) = substitutionEngine X inh m v"
proof -
  let ?scope = "mergeMaps [inh, m]"
  let ?v1 = "expandVarsInString v ?scope"
  obtain v2 log2 where 2: "replaceAllStringFunc gopassRegex ?v1
      (gopassRepl key p n X inh m ?scope) log = (v2, log2)"
    by (cases "replaceAllStringFunc gopassRegex ?v1 (gopassRepl key p n X inh m ?scope) log")
  obtain v3 log3 where 3: "applyCommandSubstitution v2 alternateCommandRegex key p n X inh m ?scope log2
      = (v3, log3)"
    by (cases "applyCommandSubstitution v2 alternateCommandRegex key p n X inh m ?scope log2")
  from gopass_pass_fst[of ?v1 key p n X inh m log] 2
  have v2: "v2 = substitutionPass gopassRegex (secretLookup X inh m) ?v1" by simp
  from command_pass_fst[of v2 alternateCommandRegex key p n X inh m log2] 3
  have v3: "v3 = substitutionPass alternateCommandRegex (commandForm alternateCommandRegex X inh m) v2"
    by simp
  have "fst (processValue key p n X inh m v log) =
        fst (applyCommandSubstitution v3 genericCommandRegex key p n X inh m ?scope log3)"
    by (simp add: processValue_def Let_def 2 3)
  also have "\<dots> = substitutionPass genericCommandRegex (commandForm genericCommandRegex X inh m) v3"
    by (rule command_pass_fst)
  finally show ?thesis by (simp add: substitutionEngine_def v2 v3)
qed







lemma handleQuotes_fst: "fst (handleQuotes U p n v log) = quoteHandled U v"
  by (auto simp: handleQuotes_def quoteHandled_def split: option.splits)

lemma parseLine_fst: "fst (parseLine U X p inh text n m log) = resolveLine U X inh text m"
proof -
  have "fst (case handleQuotes U p n v log of
               (v', log') \<Rightarrow>
                 (case processValue k p n X inh m (replaceAll v' [backslash, CHR ''$''] literalDollarPlaceholder) log' of
                    (v'', log'') \<Rightarrow> (AList.update k v'' m, log''))) =
        AList.update k (substitutionEngine X inh m
           (replaceAll (quoteHandled U v) [backslash, CHR ''$''] literalDollarPlaceholder)) m" for k v
    using handleQuotes_fst[of U p n v log]
      processValue_fst[of k p n X inh m
        "replaceAll (quoteHandled U v) [backslash, CHR ''$''] literalDollarPlaceholder"
        "snd (handleQuotes U p n v log)"]
    by (auto split: prod.splits)
  then show ?thesis
    by (simp add: parseLine_def resolveLine_def Let_def)
qed

lemma parseLines_fst:
  "fst (parseLines U X p inh ls n m log) = fold (resolveLine U X inh) ls m"
proof (induction ls arbitrary: n m log)
  case Nil
  show ?case by simp
next
  case (Cons l ls)
  from parseLine_fst[of U X p inh l "Suc n" m log] Cons.IH show ?case
    by (auto split: prod.splits)
qed

lemma parseLines_append:
  "parseLines U X p inh (a @ b) n m log =
     (case parseLines U X p inh a n m log of
        (m', log') \<Rightarrow> parseLines U X p inh b (n + length a) m' log')"
  by (induction a arbitrary: n m log) (auto split: prod.splits)

lemma RA_log_prefix:
  assumes "\<And>m st. prefix st (snd (repl m st))"
  shows "prefix st (snd (replaceAllStringFunc re s repl st))"
proof (induction "length s" arbitrary: s st rule: less_induct)
  case less
  have tl: "prefix st' (snd (replaceAllStringFunc re cs repl st'))" if "length cs < length s" for cs st'
    using less[OF that] .
  show ?case
  proof (cases "matchAt re s")
    case None
    show ?thesis
    proof (cases s)
      case Nil
      with None show ?thesis by (simp add: replaceAllStringFunc.simps)
    next
      case (Cons c cs)
      have "length cs < length s" by (simp add: Cons)
      from tl[OF this, of st] None show ?thesis
        unfolding Cons by (auto simp: RA_no_match split: prod.splits)
    qed
  next
    case (Some q)
    obtain ms rest where q: "q = (ms, rest)" by (cases q)
    note m = Some[unfolded q]
    show ?thesis
    proof (cases "length rest < length s")
      case True
      obtain r st' where r: "repl (ms ! 0) st = (r, st')" by (cases "repl (ms ! 0) st")
      with assms[of st "ms ! 0"] have "prefix st st'" by simp
      with tl[OF True, of st'] show ?thesis
        by (auto simp: RA_match_gen[OF m True] r split: prod.splits intro: prefix_order.trans)
    next
      case False
      show ?thesis
      proof (cases s)
        case Nil
        with m False show ?thesis by (simp add: RA_stuck)
      next
        case (Cons c cs)
        have "length cs < length s" by (simp add: Cons)
        from tl[OF this, of st] m False show ?thesis
          unfolding Cons by (auto simp: RA_stuck split: prod.splits)
      qed
    qed
  qed
qed

lemma gopassRepl_log: "prefix log (snd (gopassRepl key p n X inh m scope ms log))"
  by (simp add: gopassRepl_def Let_def split: sum.splits)

lemma commandRepl_log: "prefix log (snd (commandRepl re key p n X inh m scope ms log))"
  by (simp add: commandRepl_def Let_def split: sum.splits)

lemma processValue_log: "prefix log (snd (processValue key p n X inh m v log))"
proof -
  let ?scope = "mergeMaps [inh, m]"
  let ?v1 = "expandVarsInString v ?scope"
  obtain v2 log2 where 2: "replaceAllStringFunc gopassRegex ?v1
      (gopassRepl key p n X inh m ?scope) log = (v2, log2)"
    by (cases "replaceAllStringFunc gopassRegex ?v1 (gopassRepl key p n X inh m ?scope) log")
  obtain v3 log3 where 3: "applyCommandSubstitution v2 alternateCommandRegex key p n X inh m ?scope log2
      = (v3, log3)"
    by (cases "applyCommandSubstitution v2 alternateCommandRegex key p n X inh m ?scope log2")
  have "prefix log log2"
    using RA_log_prefix[of "gopassRepl key p n X inh m ?scope" log gopassRegex ?v1, OF gopassRepl_log] 2
    by simp
  moreover have "prefix log2 log3"
    using RA_log_prefix[of "commandRepl alternateCommandRegex key p n X inh m ?scope" log2
        alternateCommandRegex v2, OF commandRepl_log] 3
    by (simp add: applyCommandSubstitution_def)
  moreover have "prefix log3 (snd (applyCommandSubstitution v3 genericCommandRegex key p n X inh m ?scope log3))"
    unfolding applyCommandSubstitution_def by (rule RA_log_prefix) (rule commandRepl_log)
  ultimately show ?thesis
    by (auto simp: processValue_def Let_def 2 3 intro: prefix_order.trans)
qed

lemma handleQuotes_log: "prefix log (snd (handleQuotes U p n v log))"
  by (auto simp: handleQuotes_def split: option.splits)

lemma parseLine_log: "prefix log (snd (parseLine U X p inh text n m log))"
proof -
  have "prefix log (snd (case handleQuotes U p n v log of
               (v', log') \<Rightarrow>
                 (case processValue k p n X inh m (replaceAll v' [backslash, CHR ''$''] literalDollarPlaceholder) log' of
                    (v'', log'') \<Rightarrow> (AList.update k v'' m, log''))))" for k v
    using handleQuotes_log[of log U p n v]
      processValue_log[of "snd (handleQuotes U p n v log)" k p n X inh m
        "replaceAll (fst (handleQuotes U p n v log)) [backslash, CHR ''$''] literalDollarPlaceholder"]
    by (auto split: prod.splits intro: prefix_order.trans)
  then show ?thesis
    by (simp add: parseLine_def Let_def)
qed

lemma parseLines_log: "prefix log (snd (parseLines U X p inh ls n m log))"
proof (induction ls arbitrary: n m log)
  case Nil
  show ?case by simp
next
  case (Cons l ls)
  obtain m' log' where l: "parseLine U X p inh l (Suc n) m log = (m', log')"
    by (cases "parseLine U X p inh l (Suc n) m log")
  from parseLine_log[of log U X p inh l "Suc n" m] l have "prefix log log'" by simp
  with Cons.IH[of log' "Suc n" m'] show ?case
    by (auto simp: l intro: prefix_order.trans)
qed


lemma set_trimSpace: "set (trimSpace t) \<subseteq> set t"
proof -
  have "set (dropWhile isSpace (rev (dropWhile isSpace t))) \<subseteq> set (rev (dropWhile isSpace t))"
    by (auto dest: set_dropWhileD)
  also have "\<dots> \<subseteq> set t" by (auto dest: set_dropWhileD)
  finally show ?thesis by (simp add: trimSpace_def)
qed

lemma parseLine_malformed:
  assumes "trimSpace text \<noteq> []" "\<not> hasPrefix (trimSpace text) ''#''" "CHR ''='' \<notin> set text"
  shows "parseLine U X p inh text n m log = (m, log @ [MalformedLine n p (trimSpace text)])"
proof -
  from assms(3) set_trimSpace[of "text"] have "CHR ''='' \<notin> set (trimSpace text)" by blast
  then have "splitN2 (trimSpace text) = [trimSpace text]" by (simp add: splitN2_def)
  with assms(1,2) show ?thesis by (simp add: parseLine_def Let_def)
qed

lemma parseEnvFile_malformed:
  assumes "trimSpace text \<noteq> []" "\<not> hasPrefix (trimSpace text) ''#''" "CHR ''='' \<notin> set text"
    and "F p = Some content" "scanLines content = (pre @ [text] @ post, False)"
  shows "\<exists>w. parseEnvFile U F p X inh = (Inr (fst (parseLines U X p inh (pre @ post) 0 [] [])), w)
           \<and> MalformedLine (Suc (length pre)) p (trimSpace text) \<in> set w"
proof -
  obtain m1 w1 where 1: "parseLines U X p inh pre 0 [] [] = (m1, w1)"
    by (cases "parseLines U X p inh pre 0 [] []")
  let ?w = "w1 @ [MalformedLine (Suc (length pre)) p (trimSpace text)]"
  obtain m2 w2 where 2: "parseLines U X p inh post (Suc (length pre)) m1 ?w = (m2, w2)"
    by (cases "parseLines U X p inh post (Suc (length pre)) m1 ?w")
  have all: "parseLines U X p inh (pre @ [text] @ post) 0 [] [] = (m2, w2)"
    by (simp add: parseLines_append 1 2 parseLine_malformed[OF assms(1-3)])
  have "prefix ?w w2"
    using parseLines_log[of ?w U X p inh post "Suc (length pre)" m1] 2 by simp
  then have mem: "MalformedLine (Suc (length pre)) p (trimSpace text) \<in> set w2"
    by (auto simp: prefix_def)
  have "m1 = fold (resolveLine U X inh) pre []"
    using parseLines_fst[of U X p inh pre 0 "[]" "[]"] 1 by simp
  moreover have "m2 = fold (resolveLine U X inh) post m1"
    using parseLines_fst[of U X p inh post "Suc (length pre)" m1 ?w] 2 by simp
  ultimately have "m2 = fst (parseLines U X p inh (pre @ post) 0 [] [])"
    by (simp add: parseLines_fst)
  with all mem assms(4,5) show ?thesis
    by (simp add: parseEnvFile_def)
qed

text \<open>
  C8. A line that is not empty, is no comment and has no equals sign makes the parser write
  one malformed-line warning with the line number and the file, and leaves the map resolved
  so far as it is; the resolution of the file succeeds, with the map the file would give
  without that line, and with the warning among its diagnostics.
\<close>

theorem C8_malformed_line:
  assumes "trimSpace text \<noteq> []" "\<not> hasPrefix (trimSpace text) ''#''" "CHR ''='' \<notin> set text"
    and "F p = Some content" "scanLines content = (pre @ [text] @ post, False)"
  shows "parseLine U X p inh text n m log = (m, log @ [MalformedLine n p (trimSpace text)])
       \<and> (\<exists>w. parseEnvFile U F p X inh = (Inr (fst (parseLines U X p inh (pre @ post) 0 [] [])), w)
              \<and> MalformedLine (Suc (length pre)) p (trimSpace text) \<in> set w)"
  using parseLine_malformed[OF assms(1-3), of U X p inh n m log]
    parseEnvFile_malformed[where F = F and U = U and X = X and inh = inh, OF assms]
  by blast

theorem C8_malformed_line_witness:
  "trimSpace ''JUST_A_KEY'' \<noteq> [] \<and> \<not> hasPrefix (trimSpace ''JUST_A_KEY'') ''#''
   \<and> CHR ''='' \<notin> set ''JUST_A_KEY''
   \<and> map_of [(''f.env'', ''KEY1=VAL1'' @ [newline] @ ''JUST_A_KEY'' @ [newline] @ ''KEY2=VAL2'')] ''f.env''
       = Some (''KEY1=VAL1'' @ [newline] @ ''JUST_A_KEY'' @ [newline] @ ''KEY2=VAL2'')
   \<and> scanLines (''KEY1=VAL1'' @ [newline] @ ''JUST_A_KEY'' @ [newline] @ ''KEY2=VAL2'')
       = ([''KEY1=VAL1''] @ [''JUST_A_KEY''] @ [''KEY2=VAL2''], False)
   \<and> parseEnvFile (map_of [])
        (map_of [(''f.env'', ''KEY1=VAL1'' @ [newline] @ ''JUST_A_KEY'' @ [newline] @ ''KEY2=VAL2'')])
        ''f.env'' (tableExecutor []) []
       = (Inr [(''KEY1'', ''VAL1''), (''KEY2'', ''VAL2'')], [MalformedLine 2 ''f.env'' ''JUST_A_KEY''])
   \<and> parseLine (map_of []) (tableExecutor []) ''f.env'' [] ''JUST_A_KEY'' 2
        [(''KEY1'', ''VAL1'')] [] = ([(''KEY1'', ''VAL1'')], [MalformedLine 2 ''f.env'' ''JUST_A_KEY''])"
proof -
  have t: "trimSpace ''JUST_A_KEY'' = ''JUST_A_KEY''" by (simp add: trimSpace_def isSpace_def)
  have h1: "trimSpace ''JUST_A_KEY'' \<noteq> []" by (simp add: t)
  have h2: "\<not> hasPrefix (trimSpace ''JUST_A_KEY'') ''#''" by (simp add: t hasPrefix_def)
  have h3: "CHR ''='' \<notin> set ''JUST_A_KEY''" by simp
  have h4: "map_of [(''f.env'', ''KEY1=VAL1'' @ [newline] @ ''JUST_A_KEY'' @ [newline] @ ''KEY2=VAL2'')] ''f.env''
       = Some (''KEY1=VAL1'' @ [newline] @ ''JUST_A_KEY'' @ [newline] @ ''KEY2=VAL2'')" by simp
  have h5: "scanLines (''KEY1=VAL1'' @ [newline] @ ''JUST_A_KEY'' @ [newline] @ ''KEY2=VAL2'')
       = ([''KEY1=VAL1''] @ [''JUST_A_KEY''] @ [''KEY2=VAL2''], False)"
    by (simp add: scanLines.simps maxScanTokenSize_def byteLen_def runeLen_def dropCR_def)
  have c1: "parseEnvFile (map_of [])
        (map_of [(''f.env'', ''KEY1=VAL1'' @ [newline] @ ''JUST_A_KEY'' @ [newline] @ ''KEY2=VAL2'')])
        ''f.env'' (tableExecutor []) []
       = (Inr [(''KEY1'', ''VAL1''), (''KEY2'', ''VAL2'')], [MalformedLine 2 ''f.env'' ''JUST_A_KEY''])"
    by (simp add: eval_defs)
  from C8_malformed_line[where F = "map_of [(''f.env'', ''KEY1=VAL1'' @ [newline] @ ''JUST_A_KEY'' @ [newline] @ ''KEY2=VAL2'')]"
      and U = "map_of []" and X = "tableExecutor []" and inh = "[]" and n = 2
      and m = "[(''KEY1'', ''VAL1'')]" and log = "[]", OF h1 h2 h3 h4 h5]
  have c2: "parseLine (map_of []) (tableExecutor []) ''f.env'' [] ''JUST_A_KEY'' 2
        [(''KEY1'', ''VAL1'')] [] = ([(''KEY1'', ''VAL1'')], [MalformedLine 2 ''f.env'' ''JUST_A_KEY''])"
    by (simp add: t)
  from h1 h2 h3 h4 h5 c1 c2 show ?thesis by blast
qed

lemma resolveLine_key_value:
  assumes "trimSpace text \<noteq> []" "\<not> hasPrefix (trimSpace text) ''#''"
    and "splitN2 (trimSpace text) = [k0, v0]"
  shows "resolveLine U X inh text m =
         AList.update (trimSpace k0)
           (substitutionEngine X inh m
              (replaceAll (quoteHandled U (trimSpace v0)) [backslash, CHR ''$''] literalDollarPlaceholder)) m"
  using assms by (simp add: resolveLine_def Let_def)

lemma scope_sees_inFile:
  assumes "distinct (map fst m)" "map_of m k = Some v"
  shows "map_of (mergeMaps [inh, m]) k = Some v"
    and "k @ ''='' @ v \<in> set (mapToSlice (mergeMaps [inh, m]))"
proof -
  show 1: "map_of (mergeMaps [inh, m]) k = Some v"
    using assms by (simp add: map_of_mergeMaps2 map_of_rev_distinct)
  then have "(k, v) \<in> set (mergeMaps [inh, m])" by (rule map_of_SomeD)
  then show "k @ ''='' @ v \<in> set (mapToSlice (mergeMaps [inh, m]))"
    by (force simp: set_mapToSlice[OF distinct_mergeMaps2])
qed

lemma update_existing_keys: "map_of m k = Some v \<Longrightarrow> map fst (AList.update k v' m) = map fst m"
  by (auto simp: update_keys dest: map_of_SomeD intro: rev_image_eqI)

lemma parseEnvFile_fst:
  assumes "F p = Some content" "scanLines content = (ls, False)"
  shows "fst (parseEnvFile U F p X inh) = Inr (fold (resolveLine U X inh) ls [])"
  using assms parseLines_fst[of U X p inh ls 0 "[]" "[]"]
  by (auto simp: parseEnvFile_def split: prod.splits)

lemma ex_same_key_twice:
  "fst (parseEnvFile U (map_of [(''f.env'', ''A=1'' @ [newline] @ ''A=$A-2'')]) ''f.env'' X inh)
     = Inr [(''A'', ''1-2'')]"
  by (simp add: eval_defs update_conv')

lemma ex_same_key_command:
  "fst (parseEnvFile U (map_of [(''f.env'', ''A=1'' @ [newline] @ ''A=$(printenv A)'')]) ''f.env'' X inh)
     = Inr [(''A'', commandOutput X inh [(''A'', ''1'')] ''printenv A'')]"
proof -
  have s: "scanLines (''A=1'' @ [newline] @ ''A=$(printenv A)'') = ([''A=1'', ''A=$(printenv A)''], False)"
    by (simp add: scanLines.simps maxScanTokenSize_def byteLen_def runeLen_def dropCR_def)
  have 1: "resolveLine U X inh ''A=1'' [] = [(''A'', ''1'')]"
    by (simp add: resolveLine_def substitutionEngine_def substitutionPass_def quoteHandled_def eval_defs)
  have 2: "resolveLine U X inh ''A=$(printenv A)'' [(''A'', ''1'')] =
           [(''A'', commandOutput X inh [(''A'', ''1'')] ''printenv A'')]"
    by (simp add: resolveLine_def substitutionEngine_def substitutionPass_def quoteHandled_def
        commandForm_def secretLookup_def eval_defs)
  have f: "map_of [(''f.env'', ''A=1'' @ [newline] @ ''A=$(printenv A)'')] ''f.env'' =
           Some (''A=1'' @ [newline] @ ''A=$(printenv A)'')" by simp
  show ?thesis
    unfolding parseEnvFile_fst[where F = "map_of [(''f.env'', ''A=1'' @ [newline] @ ''A=$(printenv A)'')]", OF f s]
    by (simp only: fold_simps 1 2 o_apply)
qed


text \<open>
  C9. When a line defines a key the file has defined before, the later value replaces the
  earlier one (the map gets no second entry), and while the later line is resolved the
  lookup scope and the environment of the sub-processes hold the earlier value: \<open>A=1\<close>
  followed by \<open>A=$A-2\<close> resolves \<open>A\<close> to \<open>1-2\<close>.
\<close>

theorem C9_redefinition:
  assumes "trimSpace text \<noteq> []" "\<not> hasPrefix (trimSpace text) ''#''"
    and "splitN2 (trimSpace text) = [k0, v0]" "trimSpace k0 = k"
    and "distinct (map fst m)" "map_of m k = Some v1"
  shows "map_of (fst (parseLine U X p inh text n m log)) k =
           Some (substitutionEngine X inh m
                   (replaceAll (quoteHandled U (trimSpace v0)) [backslash, CHR ''$'']
                      literalDollarPlaceholder))
       \<and> map fst (fst (parseLine U X p inh text n m log)) = map fst m
       \<and> map_of (mergeMaps [inh, m]) k = Some v1
       \<and> k @ ''='' @ v1 \<in> set (mapToSlice (mergeMaps [inh, m]))
       \<and> fst (parseEnvFile U' (map_of [(''f.env'', ''A=1'' @ [newline] @ ''A=$A-2'')]) ''f.env'' X' inh')
           = Inr [(''A'', ''1-2'')]
       \<and> fst (parseEnvFile U' (map_of [(''f.env'', ''A=1'' @ [newline] @ ''A=$(printenv A)'')]) ''f.env''
              X' inh')
           = Inr [(''A'', commandOutput X' inh' [(''A'', ''1'')] ''printenv A'')]"
proof -
  note r = resolveLine_key_value[OF assms(1-3), of U X inh m, unfolded assms(4)]
  have 1: "map_of (fst (parseLine U X p inh text n m log)) k =
           Some (substitutionEngine X inh m
                   (replaceAll (quoteHandled U (trimSpace v0)) [backslash, CHR ''$'']
                      literalDollarPlaceholder))"
    by (simp add: parseLine_fst r update_conv')
  have 2: "map fst (fst (parseLine U X p inh text n m log)) = map fst m"
    by (simp add: parseLine_fst r update_existing_keys[OF assms(6)])
  show ?thesis
    using 1 2 scope_sees_inFile[OF assms(5,6), of inh]
      ex_same_key_twice[of U' X' inh'] ex_same_key_command[of U' X' inh']
    by (simp only: simp_thms)
qed

theorem C9_redefinition_witness:
  "trimSpace ''A=$A-2'' \<noteq> [] \<and> \<not> hasPrefix (trimSpace ''A=$A-2'') ''#''
   \<and> splitN2 (trimSpace ''A=$A-2'') = [''A'', ''$A-2''] \<and> trimSpace ''A'' = ''A''
   \<and> distinct (map fst [(''A'', ''1'')]) \<and> map_of [(''A'', ''1'')] ''A'' = Some ''1''
   \<and> map_of (fst (parseLine (map_of []) envExecutor ''f.env'' [(''HOME'', ''/root'')] ''A=$A-2'' 2
                    [(''A'', ''1'')] [])) ''A'' = Some ''1-2''
   \<and> map fst (fst (parseLine (map_of []) envExecutor ''f.env'' [(''HOME'', ''/root'')] ''A=$A-2'' 2
                    [(''A'', ''1'')] [])) = [''A'']
   \<and> ''A=1'' \<in> set (mapToSlice (mergeMaps [[(''HOME'', ''/root'')], [(''A'', ''1'')]]))
   \<and> fst (parseEnvFile (map_of []) (map_of [(''f.env'', ''A=1'' @ [newline] @ ''A=$(printenv A)'')])
           ''f.env'' envExecutor [(''HOME'', ''/root'')])
       = Inr [(''A'', ''A=1'' @ [newline] @ ''HOME=/root'')]"
proof -
  have t: "trimSpace ''A=$A-2'' = ''A=$A-2''" "trimSpace ''A'' = ''A''" "trimSpace ''$A-2'' = ''$A-2''"
    by (simp_all add: trimSpace_def isSpace_def)
  have h1: "trimSpace ''A=$A-2'' \<noteq> []" by (simp add: t)
  have h2: "\<not> hasPrefix (trimSpace ''A=$A-2'') ''#''" by (simp add: t hasPrefix_def)
  have h3: "splitN2 (trimSpace ''A=$A-2'') = [''A'', ''$A-2'']" by (simp add: t splitN2_def)
  have h5: "distinct (map fst [(''A'', ''1'')])" by simp
  have h6: "map_of [(''A'', ''1'')] ''A'' = Some ''1''" by simp
  note c = C9_redefinition[where U = "map_of []" and X = envExecutor and p = "''f.env''"
      and inh = "[(''HOME'', ''/root'')]" and n = 2 and log = "[]" and U' = "map_of []"
      and X' = envExecutor and inh' = "[(''HOME'', ''/root'')]", OF h1 h2 h3 t(2) h5 h6]
  have e: "substitutionEngine envExecutor [(''HOME'', ''/root'')] [(''A'', ''1'')]
             (replaceAll (quoteHandled (map_of []) (trimSpace ''$A-2'')) [backslash, CHR ''$'']
                literalDollarPlaceholder) = ''1-2''"
    by (simp add: t substitutionEngine_def substitutionPass_def quoteHandled_def eval_defs)
  have o: "commandOutput envExecutor [(''HOME'', ''/root'')] [(''A'', ''1'')] ''printenv A''
           = ''A=1'' @ [newline] @ ''HOME=/root''"
    by (simp add: commandOutput_def envExecutor_def eval_defs)
  from c have c1: "map_of (fst (parseLine (map_of []) envExecutor ''f.env'' [(''HOME'', ''/root'')] ''A=$A-2'' 2
                    [(''A'', ''1'')] [])) ''A'' = Some ''1-2''"
    unfolding e by blast
  from c have c2: "map fst (fst (parseLine (map_of []) envExecutor ''f.env'' [(''HOME'', ''/root'')] ''A=$A-2'' 2
                    [(''A'', ''1'')] [])) = [''A'']"
    by simp
  from c have c3: "''A=1'' \<in> set (mapToSlice (mergeMaps [[(''HOME'', ''/root'')], [(''A'', ''1'')]]))"
    by simp
  from c have c4: "fst (parseEnvFile (map_of []) (map_of [(''f.env'', ''A=1'' @ [newline] @ ''A=$(printenv A)'')])
           ''f.env'' envExecutor [(''HOME'', ''/root'')])
       = Inr [(''A'', ''A=1'' @ [newline] @ ''HOME=/root'')]"
    unfolding o by blast
  from h1 h2 h3 t(2) h5 h6 c1 c2 c3 c4 show ?thesis by blast
qed

lemma trimSpace_id:
  "s \<noteq> [] \<Longrightarrow> \<not> isSpace (hd s) \<Longrightarrow> \<not> isSpace (last s) \<Longrightarrow> trimSpace s = s"
proof -
  assume s: "s \<noteq> []" and h: "\<not> isSpace (hd s)" and l: "\<not> isSpace (last s)"
  from s h have 1: "dropWhile isSpace s = s" by (cases s) simp_all
  from s l have 2: "dropWhile isSpace (rev s) = rev s"
    by (cases "rev s") (simp_all add: last_rev[symmetric] hd_rev)
  show ?thesis by (simp add: trimSpace_def 1 2)
qed

lemma replaceAll_absent: "hd old \<notin> set s \<Longrightarrow> replaceAll s old new = s"
proof (induction s)
  case Nil
  show ?case by simp
next
  case (Cons c cs)
  then have n: "\<not> (old \<noteq> [] \<and> prefix old (c # cs))"
    by (cases old) auto
  from Cons have "replaceAll cs old new = cs" by simp
  with n show ?case by (simp del: de_Morgan_conj)
qed

lemma word_chars:
  "isWord c \<Longrightarrow> c \<noteq> CHR ''='' \<and> c \<noteq> backslash \<and> c \<noteq> CHR ''#'' \<and> \<not> isSpace c"
  "isNameStart c \<Longrightarrow> isWord c"
  by (auto simp: isWord_def isNameStart_def inRange_def isSpace_def)

lemma name_chars:
  assumes "isName n"
  shows "n \<noteq> []" "\<forall>c\<in>set n. isWord c" "isWord (hd n)" "isWord (last n)"
proof -
  from isName_split[OF assms] obtain c cs where n: "n = c # cs" and c: "isNameStart c"
    and cs: "\<forall>x\<in>set cs. isWord x" by blast
  show "n \<noteq> []" by (simp add: n)
  show all: "\<forall>c\<in>set n. isWord c" using c cs by (auto simp: n word_chars(2))
  show "isWord (hd n)" using c by (simp add: n word_chars(2))
  show "isWord (last n)" using all by (simp add: n)
qed

lemma substitutionPass_Nil: "re \<in> theRegexes \<Longrightarrow> substitutionPass re f [] = []"
  by (simp add: substitutionPass_def RA_Nil)

lemma substitutionEngine_absent_plain:
  assumes "isName name" "map_of (mergeMaps [inh, m]) name = None"
  shows "substitutionEngine X inh m (''$'' @ name) = []"
  using expandVars_plain[OF assms(1), of "[]" "mergeMaps [inh, m]"] assms(2)
  by (simp add: substitutionEngine_def expandVars_Nil substitutionPass_Nil varRe_in)

lemma substitutionEngine_absent_braces:
  assumes "isName name" "map_of (mergeMaps [inh, m]) name = None"
  shows "substitutionEngine X inh m (''${'' @ name @ ''}'') = []"
  using expandVars_braces[OF assms(1), of "[]" "mergeMaps [inh, m]"] assms(2)
  by (simp add: substitutionEngine_def expandVars_Nil substitutionPass_Nil varRe_in)

lemma scope_absent:
  "name \<notin> fst ` set inh \<Longrightarrow> name \<notin> fst ` set m \<Longrightarrow> map_of (mergeMaps [inh, m]) name = None"
  by (simp add: map_of_eq_None_iff keys_mergeMaps2)

lemma resolveLine_self_reference:
  assumes "isName name" "map_of (mergeMaps [inh, m]) name = None"
  shows "resolveLine U X inh (name @ ''=$'' @ name) m = AList.update name [] m"
proof -
  note nc = name_chars[OF assms(1)]
  from nc have w: "\<forall>c\<in>set name. c \<noteq> CHR ''=''" "backslash \<notin> set name" "\<not> isSpace (hd name)"
    "\<not> isSpace (last name)" "hd name \<noteq> CHR ''#''"
    using word_chars(1) by blast+
  have t: "trimSpace (name @ ''=$'' @ name) = name @ ''=$'' @ name"
    using nc(1) w(3,4) by (intro trimSpace_id) simp_all
  have c: "\<not> hasPrefix (name @ ''=$'' @ name) ''#''"
    using nc(1) w(5) by (cases name) (simp_all add: hasPrefix_def)
  have s: "splitN2 (name @ ''=$'' @ name) = [name, ''$'' @ name]"
    using w(1) by (simp add: splitN2_def takeWhile_append2 dropWhile_append2)
  have k: "trimSpace name = name" using nc(1) w(3,4) by (intro trimSpace_id)
  have v: "trimSpace (''$'' @ name) = ''$'' @ name"
    using nc(1) w(4) by (intro trimSpace_id) (simp_all add: isSpace_def)
  have q: "quoteHandled U (''$'' @ name) = ''$'' @ name"
    by (simp add: quoteHandled_def hasPrefix_def)
  have r: "replaceAll (''$'' @ name) [backslash, CHR ''$''] literalDollarPlaceholder = ''$'' @ name"
    using w(2) by (intro replaceAll_absent) simp
  from nc(1) have ne: "name @ ''=$'' @ name \<noteq> []" by simp
  show ?thesis
    using resolveLine_key_value[of "name @ ''=$'' @ name" name "''$'' @ name" U X inh m]
      ne c s substitutionEngine_absent_plain[OF assms, of X]
    by (simp only: t k v q r list.simps simp_thms)
qed


lemma ex_forward_reference:
  assumes "''A'' \<notin> fst ` set inh"
  shows "fst (parseEnvFile U (map_of [(''f.env'', ''B=${A}'' @ [newline] @ ''A=1'')]) ''f.env'' X inh)
           = Inr [(''B'', []), (''A'', ''1'')]"
proof -
  have s: "scanLines (''B=${A}'' @ [newline] @ ''A=1'') = ([''B=${A}'', ''A=1''], False)"
    by (simp add: scanLines.simps maxScanTokenSize_def byteLen_def runeLen_def dropCR_def)
  have f: "map_of [(''f.env'', ''B=${A}'' @ [newline] @ ''A=1'')] ''f.env'' =
           Some (''B=${A}'' @ [newline] @ ''A=1'')" by simp
  have n: "isName ''A''" by (simp add: isName_def isNameStart_def inRange_def)
  have a: "map_of (mergeMaps [inh, []]) ''A'' = None"
    using assms by (intro scope_absent) simp_all
  have e: "substitutionEngine X inh [] ''${A}'' = []"
    using substitutionEngine_absent_braces[OF n a, of X] by simp
  have 1: "resolveLine U X inh ''B=${A}'' [] = [(''B'', [])]"
    by (simp add: resolveLine_def quoteHandled_def trimSpace_def isSpace_def hasPrefix_def
        splitN2_def literalDollarPlaceholder_def e)
  have 2: "resolveLine U X inh ''A=1'' [(''B'', [])] = [(''B'', []), (''A'', ''1'')]"
    by (simp add: resolveLine_def substitutionEngine_def substitutionPass_def quoteHandled_def eval_defs)
  show ?thesis
    unfolding parseEnvFile_fst[where F = "map_of [(''f.env'', ''B=${A}'' @ [newline] @ ''A=1'')]", OF f s]
    by (simp only: fold_simps 1 2 o_apply)
qed

lemma parseLines_middle:
  "parseLines U X p inh (earlier @ [text] @ later) 0 [] [] =
     (case parseLines U X p inh earlier 0 [] [] of
        (m0, w0) \<Rightarrow>
          (case parseLine U X p inh text (Suc (length earlier)) m0 w0 of
             (m1, w1) \<Rightarrow> parseLines U X p inh later (Suc (length earlier)) m1 w1))"
  by (simp add: parseLines_append split: prod.splits)

text \<open>
  C2, as amended. A line is resolved in the state the strictly earlier lines have left;
  its variable references are looked up, in one pass and without a second look at what was
  put in, in the merge of the inherited environment and that state, where a value of the
  file wins. A reference to a name in neither of the two (a key defined only on a later
  line, or only on this very line) expands to the empty string and is no error. A key that
  is inherited or defined on an earlier line is in scope on the line that defines it anew.
\<close>

theorem C2_variable_scope:
  assumes "isName name" "name \<notin> fst ` set inh" "name \<notin> fst ` set m"
  shows "parseLines U X p inh (earlier @ [text] @ later) 0 [] [] =
           (case parseLines U X p inh earlier 0 [] [] of
              (m0, w0) \<Rightarrow>
                (case parseLine U X p inh text (Suc (length earlier)) m0 w0 of
                   (m1, w1) \<Rightarrow> parseLines U X p inh later (Suc (length earlier)) m1 w1))
       \<and> fst (processValue key p n X inh m v log) =
           substitutionPass genericCommandRegex (commandForm genericCommandRegex X inh m)
             (substitutionPass alternateCommandRegex (commandForm alternateCommandRegex X inh m)
                (substitutionPass gopassRegex (secretLookup X inh m)
                   (expandVarsInString v (mergeMaps [inh, m]))))
       \<and> (distinct (map fst inh) \<and> distinct (map fst m) \<longrightarrow>
            map_of (mergeMaps [inh, m]) k =
              (case map_of m k of Some val \<Rightarrow> Some val | None \<Rightarrow> map_of inh k))
       \<and> expandVarsInString (''${'' @ name @ ''}'' @ post) scope =
           (case map_of scope name of Some val \<Rightarrow> val | None \<Rightarrow> []) @ expandVarsInString post scope
       \<and> (post = [] \<or> \<not> isWord (hd post) \<longrightarrow>
            expandVarsInString (''$'' @ name @ post) scope =
              (case map_of scope name of Some val \<Rightarrow> val | None \<Rightarrow> []) @ expandVarsInString post scope)
       \<and> (c \<noteq> CHR ''$'' \<longrightarrow> expandVarsInString (c # rest) scope = c # expandVarsInString rest scope)
       \<and> map_of (mergeMaps [inh, m]) name = None
       \<and> expandVarsInString (''${'' @ name @ ''}'' @ post) (mergeMaps [inh, m]) =
           expandVarsInString post (mergeMaps [inh, m])
       \<and> fst (parseLine U X p inh (name @ ''=$'' @ name) n m log) = AList.update name [] m
       \<and> (''A'' \<notin> fst ` set inh' \<longrightarrow>
            fst (parseEnvFile U' (map_of [(''f.env'', ''B=${A}'' @ [newline] @ ''A=1'')]) ''f.env'' X' inh')
              = Inr [(''B'', []), (''A'', ''1'')])"
proof -
  note a = scope_absent[OF assms(2,3)]
  have 2: "fst (processValue key p n X inh m v log) =
           substitutionPass genericCommandRegex (commandForm genericCommandRegex X inh m)
             (substitutionPass alternateCommandRegex (commandForm alternateCommandRegex X inh m)
                (substitutionPass gopassRegex (secretLookup X inh m)
                   (expandVarsInString v (mergeMaps [inh, m]))))"
    by (simp add: processValue_fst substitutionEngine_def)
  have 8: "expandVarsInString (''${'' @ name @ ''}'' @ post) (mergeMaps [inh, m]) =
           expandVarsInString post (mergeMaps [inh, m])"
    using expandVars_braces[OF assms(1), of post "mergeMaps [inh, m]"] a by simp
  have 9: "fst (parseLine U X p inh (name @ ''=$'' @ name) n m log) = AList.update name [] m"
    by (simp only: parseLine_fst resolveLine_self_reference[OF assms(1) a])
  show ?thesis
    using parseLines_middle[of U X p inh earlier "text" later] 2
      lookup_mergeMaps2[of inh m k] expandVars_braces[OF assms(1), of post scope]
      expandVars_plain[OF assms(1), of post scope] expandVars_other[of c rest scope] a 8 9
      ex_forward_reference[of inh' U' X']
    by (simp only: simp_thms) blast
qed

theorem C2_variable_scope_witness:
  "isName ''MY_VAR'' \<and> ''MY_VAR'' \<notin> fst ` set [(''HOME'', ''/root'')]
   \<and> ''MY_VAR'' \<notin> fst ` set ([] :: envmap)
   \<and> distinct (map fst [(''HOME'', ''/root'')]) \<and> distinct (map fst ([] :: envmap))
   \<and> ''A'' \<notin> fst ` set [(''HOME'', ''/root'')]
   \<and> fst (parseLine (map_of []) (tableExecutor []) ''f.env'' [(''HOME'', ''/root'')]
           (''MY_VAR'' @ ''=$'' @ ''MY_VAR'') 1 [] []) = [(''MY_VAR'', [])]
   \<and> map_of (mergeMaps [[(''HOME'', ''/root'')], []]) ''HOME'' = Some ''/root''
   \<and> expandVarsInString (''${'' @ ''MY_VAR'' @ ''}'' @ ''/x'') [(''MY_VAR'', ''$HOME''), (''HOME'', ''/root'')]
       = ''$HOME/x''
   \<and> \<not> isWord (hd ''/x'')
   \<and> expandVarsInString (''$'' @ ''MY_VAR'' @ ''/x'') [(''MY_VAR'', ''$HOME''), (''HOME'', ''/root'')]
       = ''$HOME/x''
   \<and> CHR ''a'' \<noteq> CHR ''$''
   \<and> expandVarsInString (CHR ''a'' # ''$HOME'') [(''MY_VAR'', ''$HOME''), (''HOME'', ''/root'')]
       = ''a/root''
   \<and> fst (parseEnvFile (map_of []) (map_of [(''f.env'', ''B=${A}'' @ [newline] @ ''A=1'')]) ''f.env''
           (tableExecutor []) [(''HOME'', ''/root'')]) = Inr [(''B'', []), (''A'', ''1'')]"
proof -
  have h1: "isName ''MY_VAR''" by (simp add: isName_def isNameStart_def isWord_def inRange_def)
  have h2: "''MY_VAR'' \<notin> fst ` set [(''HOME'', ''/root'')]" by simp
  have h3: "''MY_VAR'' \<notin> fst ` set ([] :: envmap)" by simp
  have h4: "distinct (map fst [(''HOME'', ''/root'')])" "distinct (map fst ([] :: envmap))" by simp_all
  have h5: "''A'' \<notin> fst ` set [(''HOME'', ''/root'')]" by simp
  note t = C2_variable_scope[where U = "map_of []" and X = "tableExecutor []"
      and p = "''f.env''" and n = 1 and log = "[]" and k = "''HOME''" and post = "''/x''"
      and scope = "[(''MY_VAR'', ''$HOME''), (''HOME'', ''/root'')]" and U' = "map_of []"
      and X' = "tableExecutor []" and inh' = "[(''HOME'', ''/root'')]"
      and c = "CHR ''a''" and rest = "''$HOME''", OF h1 h2 h3]
  from t have c1: "fst (parseLine (map_of []) (tableExecutor []) ''f.env'' [(''HOME'', ''/root'')]
           (''MY_VAR'' @ ''=$'' @ ''MY_VAR'') 1 [] []) = [(''MY_VAR'', [])]"
    by simp
  from t h4 have c2: "map_of (mergeMaps [[(''HOME'', ''/root'')], []]) ''HOME'' = Some ''/root''"
    by simp
  from t have c3: "expandVarsInString (''${'' @ ''MY_VAR'' @ ''}'' @ ''/x'')
        [(''MY_VAR'', ''$HOME''), (''HOME'', ''/root'')] = ''$HOME/x''"
    by (simp add: expandVars_no_dollar)
  from t h5 have c4: "fst (parseEnvFile (map_of []) (map_of [(''f.env'', ''B=${A}'' @ [newline] @ ''A=1'')]) ''f.env''
           (tableExecutor []) [(''HOME'', ''/root'')]) = Inr [(''B'', []), (''A'', ''1'')]"
    by blast
  have h6: "\<not> isWord (hd ''/x'')" by (simp add: isWord_def inRange_def)
  from t h6 have c5: "expandVarsInString (''$'' @ ''MY_VAR'' @ ''/x'')
        [(''MY_VAR'', ''$HOME''), (''HOME'', ''/root'')] = ''$HOME/x''"
    by (simp add: expandVars_no_dollar)
  have h7: "CHR ''a'' \<noteq> CHR ''$''" by simp
  have r: "expandVarsInString ''$HOME'' [(''MY_VAR'', ''$HOME''), (''HOME'', ''/root'')] = ''/root''"
    by (simp add: eval_defs)
  from t h7 have "expandVarsInString (CHR ''a'' # ''$HOME'') [(''MY_VAR'', ''$HOME''), (''HOME'', ''/root'')]
        = CHR ''a'' # expandVarsInString ''$HOME'' [(''MY_VAR'', ''$HOME''), (''HOME'', ''/root'')]"
    by blast
  then have c6: "expandVarsInString (CHR ''a'' # ''$HOME'') [(''MY_VAR'', ''$HOME''), (''HOME'', ''/root'')]
        = ''a/root''"
    unfolding r by simp
  from h1 h2 h3 h4 h5 h6 h7 c1 c2 c3 c4 c5 c6 show ?thesis by blast
qed

text \<open>The claim as stated fails for a key that is inherited: the reference to the key the
  line defines expands to the inherited value, not to the empty string.\<close>

theorem C2_counterexample:
  "fst (parseEnvFile (map_of []) (map_of [(''f.env'', ''MY_VAR=$MY_VAR'')]) ''f.env''
          (tableExecutor []) [(''MY_VAR'', ''x'')]) = Inr [(''MY_VAR'', ''x'')]
   \<and> ''x'' \<noteq> []"
  by (simp add: eval_defs)


lemma reSpace_space: "reSpace CHR '' ''"
  by (simp add: reSpace_def)























lemma expandVars_cong:
  "map_of s1 = map_of s2 \<Longrightarrow> expandVarsInString t s1 = expandVarsInString t s2"
proof -
  assume "map_of s1 = map_of s2"
  then have "expandVar s1 = expandVar s2"
    by (intro ext) (simp add: expandVar_def)
  then show ?thesis by (simp add: expandVarsInString_def)
qed

lemma scope_cong:
  assumes "distinct (map fst i1)" "distinct (map fst i2)" "map_of i1 = map_of i2"
  shows "map_of (mergeMaps [i1, m]) = map_of (mergeMaps [i2, m])"
    and "mapToSlice (mergeMaps [i1, m]) = mapToSlice (mergeMaps [i2, m])"
proof -
  show 1: "map_of (mergeMaps [i1, m]) = map_of (mergeMaps [i2, m])"
    using assms by (simp add: map_of_mergeMaps2 map_of_rev_distinct)
  show "mapToSlice (mergeMaps [i1, m]) = mapToSlice (mergeMaps [i2, m])"
    by (rule mapToSlice_cong) (simp_all add: distinct_mergeMaps2 1)
qed

lemma processValue_cong:
  assumes "distinct (map fst i1)" "distinct (map fst i2)" "map_of i1 = map_of i2"
  shows "processValue key p n X i1 m v log = processValue key p n X i2 m v log"
proof -
  note s = scope_cong[OF assms, of m]
  have e: "expandVarsInString t (mergeMaps [i1, m]) = expandVarsInString t (mergeMaps [i2, m])" for t
    by (rule expandVars_cong) (rule s(1))
  have x: "executeCommandSubstitution key c p n X i1 m = executeCommandSubstitution key c p n X i2 m" for c
    by (simp add: executeCommandSubstitution_def s(2))
  have g: "gopassRepl key p n X i1 m (mergeMaps [i1, m]) = gopassRepl key p n X i2 m (mergeMaps [i2, m])"
    by (intro ext) (simp add: gopassRepl_def Let_def e x cong: sum.case_cong if_cong)
  have c: "commandRepl re key p n X i1 m (mergeMaps [i1, m]) = commandRepl re key p n X i2 m (mergeMaps [i2, m])"
    for re
    by (intro ext) (simp add: commandRepl_def Let_def e x cong: sum.case_cong if_cong)
  show ?thesis
    by (simp add: processValue_def Let_def applyCommandSubstitution_def e g c cong: prod.case_cong)
qed

lemma parseLine_cong:
  assumes "distinct (map fst i1)" "distinct (map fst i2)" "map_of i1 = map_of i2"
  shows "parseLine U X p i1 l n m log = parseLine U X p i2 l n m log"
  by (simp add: parseLine_def Let_def processValue_cong[OF assms] cong: prod.case_cong if_cong)

lemma parseLines_cong:
  assumes "distinct (map fst i1)" "distinct (map fst i2)" "map_of i1 = map_of i2"
  shows "parseLines U X p i1 ls n m log = parseLines U X p i2 ls n m log"
  by (induction ls arbitrary: n m log) (simp_all add: parseLine_cong[OF assms] split: prod.splits)

lemma parseEnvFile_cong:
  assumes "distinct (map fst i1)" "distinct (map fst i2)" "map_of i1 = map_of i2"
  shows "parseEnvFile U F p X i1 = parseEnvFile U F p X i2"
  by (simp add: parseEnvFile_def parseLines_cong[OF assms] split: option.splits prod.splits)

lemma mapToSlice_keys:
  assumes "\<forall>k\<in>fst ` set m. CHR ''='' \<notin> set k"
  shows "map (takeWhile (\<lambda>c. c \<noteq> CHR ''='')) (mapToSlice m) = sort (map fst m)"
proof -
  have "takeWhile (\<lambda>c. c \<noteq> CHR ''='') (k @ ''='' @ v) = k" if "CHR ''='' \<notin> set k" for k v :: string
    using that by (induction k) auto
  then have "map (takeWhile (\<lambda>c. c \<noteq> CHR ''='') \<circ> (\<lambda>k. k @ ''='' @ index m k)) ks = ks"
    if "set ks \<subseteq> fst ` set m" for ks
    using that assms by (induction ks) auto
  from this[of "sort (map fst m)"] show ?thesis
    by (simp add: mapToSlice_def)
qed

lemma launchEnv_cong:
  assumes "distinct (map fst o1)" "distinct (map fst o2)" "map_of o1 = map_of o2"
    and "distinct (map fst j1)" "distinct (map fst j2)" "map_of j1 = map_of j2"
  shows "launchEnv sb o1 j1 = launchEnv sb o2 j2"
proof -
  have "map_of (mergeMaps [o1, j1]) = map_of (mergeMaps [o2, j2])"
    using assms by (simp add: map_of_mergeMaps2_distinct)
  then have "mapToSlice (mergeMaps [o1, j1]) = mapToSlice (mergeMaps [o2, j2])"
    by (intro mapToSlice_cong) (simp_all add: distinct_mergeMaps2)
  moreover have "mapToSlice j1 = mapToSlice j2"
    using assms(4-6) by (rule mapToSlice_cong)
  ultimately show ?thesis by (simp add: launchEnv_def)
qed

text \<open>
  C10. The result of the per-file resolution is a function of the content of the file, the
  executor and the inherited map: it does not depend on the order in which Go visits the
  entries of the inherited map (two lists with the same distinct keys and values give the
  same result, diagnostics included). The listing of a map has its keys in sorted order and
  is the same for every order of the entries, and so is the environment handed to the
  launch step.
\<close>

theorem C10_deterministic:
  assumes "distinct (map fst i1)" "distinct (map fst i2)" "map_of i1 = map_of i2"
    and "distinct (map fst a)" "distinct (map fst b)" "map_of a = map_of b"
  shows "parseEnvFile U F p X i1 = parseEnvFile U F p X i2
       \<and> mapToSlice a = mapToSlice b
       \<and> launchEnv sb i1 a = launchEnv sb i2 b
       \<and> sorted (sort (map fst a)) \<and> distinct (sort (map fst a))
       \<and> mapToSlice a = map (\<lambda>k. k @ ''='' @ index a k) (sort (map fst a))
       \<and> ((\<forall>k\<in>fst ` set a. CHR ''='' \<notin> set k) \<longrightarrow>
            map (takeWhile (\<lambda>c. c \<noteq> CHR ''='')) (mapToSlice a) = sort (map fst a))"
  using parseEnvFile_cong[OF assms(1-3), of U F p X] mapToSlice_cong[OF assms(4-6)]
    launchEnv_cong[OF assms, of sb] assms(4) mapToSlice_keys[of a]
  by (simp add: mapToSlice_def)

theorem C10_deterministic_witness:
  "distinct (map fst [(''A'', ''1''), (''B'', ''2'')]) \<and> distinct (map fst [(''B'', ''2''), (''A'', ''1'')])
   \<and> map_of [(''A'', ''1''), (''B'', ''2'')] = map_of [(''B'', ''2''), (''A'', ''1'')]
   \<and> CHR ''='' \<notin> set ''A'' \<and> CHR ''='' \<notin> set ''B''
   \<and> parseEnvFile (map_of []) (map_of [(''f.env'', ''K=$A-$(env)'')]) ''f.env'' envExecutor
         [(''A'', ''1''), (''B'', ''2'')]
       = parseEnvFile (map_of []) (map_of [(''f.env'', ''K=$A-$(env)'')]) ''f.env'' envExecutor
         [(''B'', ''2''), (''A'', ''1'')]
   \<and> parseEnvFile (map_of []) (map_of [(''f.env'', ''K=$A-$(env)'')]) ''f.env'' envExecutor
         [(''B'', ''2''), (''A'', ''1'')]
       = (Inr [(''K'', ''1-A=1'' @ [newline] @ ''B=2'')], [])
   \<and> mapToSlice [(''B'', ''2''), (''A'', ''1'')] = [''A=1'', ''B=2'']
   \<and> mapToSlice [(''A'', ''1''), (''B'', ''2'')] = mapToSlice [(''B'', ''2''), (''A'', ''1'')]
   \<and> map (takeWhile (\<lambda>c. c \<noteq> CHR ''='')) (mapToSlice [(''B'', ''2''), (''A'', ''1'')]) = [''A'', ''B'']"
proof -
  have h1: "distinct (map fst [(''A'', ''1''), (''B'', ''2'')])" by simp
  have h2: "distinct (map fst [(''B'', ''2''), (''A'', ''1'')])" by simp
  have h3: "map_of [(''A'', ''1''), (''B'', ''2'')] = map_of [(''B'', ''2''), (''A'', ''1'')]"
    by (auto simp: fun_eq_iff)
  have h4: "CHR ''='' \<notin> set ''A''" "CHR ''='' \<notin> set ''B''" by simp_all
  note t = C10_deterministic[where U = "map_of []" and F = "map_of [(''f.env'', ''K=$A-$(env)'')]"
      and p = "''f.env''" and X = envExecutor, OF h1 h2 h3 h2 h1 h3[symmetric]]
  have e: "parseEnvFile (map_of []) (map_of [(''f.env'', ''K=$A-$(env)'')]) ''f.env'' envExecutor
         [(''B'', ''2''), (''A'', ''1'')]
       = (Inr [(''K'', ''1-A=1'' @ [newline] @ ''B=2'')], [])"
    by (simp add: eval_defs envExecutor_def)
  have s: "mapToSlice [(''B'', ''2''), (''A'', ''1'')] = [''A=1'', ''B=2'']"
    by (simp add: mapToSlice_def index_def)
  from t have c1: "parseEnvFile (map_of []) (map_of [(''f.env'', ''K=$A-$(env)'')]) ''f.env'' envExecutor
         [(''A'', ''1''), (''B'', ''2'')]
       = parseEnvFile (map_of []) (map_of [(''f.env'', ''K=$A-$(env)'')]) ''f.env'' envExecutor
         [(''B'', ''2''), (''A'', ''1'')]"
    by (rule conjunct1)
  from t have c2: "mapToSlice [(''A'', ''1''), (''B'', ''2'')] = mapToSlice [(''B'', ''2''), (''A'', ''1'')]"
    by metis
  have b: "\<forall>k\<in>fst ` set [(''B'', ''2''), (''A'', ''1'')]. CHR ''='' \<notin> set k"
    using h4 by simp
  from t b have "map (takeWhile (\<lambda>c. c \<noteq> CHR ''='')) (mapToSlice [(''B'', ''2''), (''A'', ''1'')])
      = sort (map fst [(''B'', ''2''), (''A'', ''1'')])"
    by blast
  then have c3: "map (takeWhile (\<lambda>c. c \<noteq> CHR ''='')) (mapToSlice [(''B'', ''2''), (''A'', ''1'')]) = [''A'', ''B'']"
    by simp
  from h1 h2 h3 h4 c1 e s c2 c3 show ?thesis by blast
qed

end
